theory Spec2Isabelle
  imports Main "HOL-Library.Word"
begin

unbundle bit_operations_syntax

section \<open>The USB CDC serial port of the STM32L4 core (cores/stm32l4/CDC.cpp)\<close>

text \<open>
  A shallow embedding of class \<open>CDC\<close>. The class keeps two ring buffers (receive and
  transmit), each with a read cursor, a write cursor and an occupancy counter, and talks to
  the USB device stack through \<open>stm32l4_usbd_cdc_transmit\<close>, \<open>stm32l4_usbd_cdc_receive\<close>
  and \<open>stm32l4_usbd_cdc_done\<close>. The counters and cursors are \<open>unsigned int\<close> on a
  Cortex-M4, hence 32-bit words whose arithmetic wraps.
\<close>

subsection \<open>Build-time constants\<close>

text \<open>
  \<open>CDC.cpp\<close> uses macros and enumerators that are declared in headers (\<open>CDC.h\<close>,
  \<open>Uart.h\<close>, \<open>stm32l4_usbd_cdc.h\<close>). Their values are parameters of every function of
  the model.
\<close>

type_synonym u32 = "32 word"
type_synonym u8 = "8 word"

record cdc_config =
  CDC_RX_BUFFER_SIZE :: u32
  CDC_TX_BUFFER_SIZE :: u32
  UART_RX_BUFFER_SIZE :: u32
  USBD_CDC_FIFO_SIZE :: u32
  USBD_CDC_STATE_READY :: nat
  USBD_CDC_EVENT_RECEIVE :: u32
  USBD_CDC_EVENT_TRANSMIT :: u32

text \<open>\<open>#define CDC_TX_PACKET_SIZE (((USBD_CDC_FIFO_SIZE + 63) & ~63) -1)\<close>\<close>

definition CDC_TX_PACKET_SIZE :: "cdc_config \<Rightarrow> u32" where
  "CDC_TX_PACKET_SIZE cfg = ((USBD_CDC_FIFO_SIZE cfg + 63) AND NOT 63) - 1"

subsection \<open>The object and the device stack\<close>

text \<open>
  The members of \<open>CDC\<close>, named as in the source without the leading underscore. The two
  callback pointers are modelled by whether a callback is registered; what a registered
  callback is called with is recorded on the device side.
\<close>

record cdc =
  blocking :: bool
  rx_data :: "u8 list"
  rx_read :: u32
  rx_write :: u32
  rx_count :: u32
  tx_data :: "u8 list"
  tx_read :: u32
  tx_write :: u32
  tx_size :: u32
  tx_count :: u32
  tx_total :: u32
  transmitCallback :: bool
  receiveCallback :: bool

text \<open>
  Everything outside the object: the fields of \<open>stm32l4_usbd_cdc_t\<close> and
  \<open>stm32l4_usbd_cdc_info\<close> that \<open>CDC.cpp\<close> reads (\<open>state\<close>, \<open>lineState\<close>), the
  device stack's transmitter and receive buffer, the events that interrupt a yielding
  caller, and a record of the observable effects (packets handed to the stack, yields,
  callback invocations).
\<close>

record usbd_cdc =
  state :: nat
  lineState :: u32
  tx_busy :: bool
  tx_log :: "u8 list list"
  rx_fifo :: "u8 list"
  rx_arrivals :: "u8 list list"
  irq_queue :: "u32 list"
  yields :: nat
  receive_calls :: "u32 list"
  transmit_calls :: nat

text \<open>
  Modelled from the spec: the device stack (\<open>stm32l4_usbd_cdc.c\<close>) is not part of the
  sources. Section 6 of the specification gives its contract: \<open>transmit\<close> hands one packet
  to the device and completes asynchronously, \<open>done\<close> is true iff no transmission is in
  flight, \<open>receive\<close> pulls up to \<open>capacity\<close> bytes already buffered by the stack and may
  return fewer or none. Between two calls of \<open>receive\<close> the stack may buffer further
  bytes: \<open>rx_arrivals\<close> lists what arrives before each of the next calls.
\<close>

definition stm32l4_usbd_cdc_done :: "usbd_cdc \<Rightarrow> bool" where
  "stm32l4_usbd_cdc_done d = (\<not> tx_busy d)"

definition stm32l4_usbd_cdc_transmit :: "usbd_cdc \<Rightarrow> u8 list \<Rightarrow> usbd_cdc" where
  "stm32l4_usbd_cdc_transmit d packet = d\<lparr>tx_busy := True, tx_log := tx_log d @ [packet]\<rparr>"

definition stm32l4_usbd_cdc_receive :: "usbd_cdc \<Rightarrow> nat \<Rightarrow> u8 list \<times> usbd_cdc" where
  "stm32l4_usbd_cdc_receive d capacity =
     (let buffered = rx_fifo d @ (case rx_arrivals d of [] \<Rightarrow> [] | a # _ \<Rightarrow> a)
      in (take capacity buffered,
          d\<lparr>rx_fifo := drop capacity buffered, rx_arrivals := tl (rx_arrivals d)\<rparr>))"

subsection \<open>Results: faults and non-termination\<close>

text \<open>
  A \<open>memcpy\<close> or an array access outside its array is undefined behaviour in C++; the
  model stops with \<open>OutOfBounds\<close>. Loops run on fuel: \<open>None\<close> means that the fuel ran
  out before the function returned.
\<close>

datatype fault = OutOfBounds

type_synonym 'a res = "(fault + 'a) option"

definition rbind :: "'a res \<Rightarrow> ('a \<Rightarrow> 'b res) \<Rightarrow> 'b res" where
  "rbind m f = (case m of None \<Rightarrow> None | Some (Inl e) \<Rightarrow> Some (Inl e) | Some (Inr x) \<Rightarrow> f x)"

definition mem_read :: "u8 list \<Rightarrow> nat \<Rightarrow> nat \<Rightarrow> u8 list option" where
  "mem_read src off n = (if off + n \<le> length src then Some (take n (drop off src)) else None)"

definition mem_write :: "u8 list \<Rightarrow> nat \<Rightarrow> u8 list \<Rightarrow> u8 list option" where
  "mem_write dst off bytes =
     (if off + length bytes \<le> length dst
      then Some (take off dst @ bytes @ drop (off + length bytes) dst) else None)"

subsection \<open>Construction and queries\<close>

text \<open>
  \<open>CDC::CDC\<close>. \<open>SerialUSB\<close> is an object of static storage duration, so its arrays are
  zero-initialised before the constructor runs.
\<close>

definition CDC_init :: "cdc_config \<Rightarrow> cdc" where
  "CDC_init cfg =
     \<lparr>blocking = True,
      rx_data = replicate (unat (CDC_RX_BUFFER_SIZE cfg)) 0,
      rx_read = 0, rx_write = 0, rx_count = 0,
      tx_data = replicate (unat (CDC_TX_BUFFER_SIZE cfg)) 0,
      tx_read = 0, tx_write = 0, tx_size = 0, tx_count = 0, tx_total = 0,
      transmitCallback = False, receiveCallback = False\<rparr>"

text \<open>\<open>int CDC::available()\<close>: the \<open>uint32_t\<close> counter converted to \<open>int\<close>.\<close>

definition available :: "cdc \<Rightarrow> int" where
  "available s = sint (rx_count s)"

text \<open>\<open>int CDC::availableForWrite()\<close>\<close>

definition availableForWrite :: "cdc_config \<Rightarrow> cdc \<Rightarrow> usbd_cdc \<Rightarrow> int" where
  "availableForWrite cfg s d =
     (if state d < USBD_CDC_STATE_READY cfg then 0
      else sint (CDC_TX_BUFFER_SIZE cfg - tx_count s))"

text \<open>\<open>void CDC::blockOnOverrun(bool block)\<close>, \<open>onTransmit\<close>, \<open>onReceive\<close>\<close>

definition blockOnOverrun :: "bool \<Rightarrow> cdc \<Rightarrow> cdc" where
  "blockOnOverrun block s = s\<lparr>blocking := block\<rparr>"

definition onTransmit :: "bool \<Rightarrow> cdc \<Rightarrow> cdc" where
  "onTransmit callback s = s\<lparr>transmitCallback := callback\<rparr>"

definition onReceive :: "bool \<Rightarrow> cdc \<Rightarrow> cdc" where
  "onReceive callback s = s\<lparr>receiveCallback := callback\<rparr>"

text \<open>\<open>int CDC::peek()\<close>\<close>

definition peek :: "cdc \<Rightarrow> fault + int" where
  "peek s =
     (if rx_count s = 0 then Inr (- 1)
      else if unat (rx_read s) < length (rx_data s)
        then Inr (uint (rx_data s ! unat (rx_read s)))
        else Inl OutOfBounds)"

text \<open>\<open>int CDC::read()\<close>\<close>

definition read_byte :: "cdc_config \<Rightarrow> cdc \<Rightarrow> fault + int \<times> cdc" where
  "read_byte cfg s =
     (if rx_count s = 0 then Inr (- 1, s)
      else if unat (rx_read s) < length (rx_data s)
        then Inr (uint (rx_data s ! unat (rx_read s)),
                  s\<lparr>rx_read := (rx_read s + 1) AND (CDC_RX_BUFFER_SIZE cfg - 1),
                    rx_count := rx_count s - 1\<rparr>)
        else Inl OutOfBounds)"

text \<open>
  \<open>size_t CDC::read(uint8_t *buffer, size_t size)\<close>. \<open>buffer\<close> is the caller's array;
  the result is the returned count, the array after the call and the object after the
  call. One pass of the loop body, after the test \<open>rx_count == 0\<close>: the span is clamped
  with \<open>UART_RX_BUFFER_SIZE\<close> (as in the source), copied to \<open>&buffer[count]\<close>, and the
  cursor and the counter are updated.
\<close>

definition read_chunk :: "cdc_config \<Rightarrow> u8 list \<Rightarrow> u32 \<Rightarrow> cdc \<Rightarrow> fault + u32 \<times> u8 list \<times> cdc" where
  "read_chunk cfg buffer count s =
     (let rx_rd = rx_read s;
          rx_cnt = (if rx_count s > UART_RX_BUFFER_SIZE cfg - rx_rd
                    then UART_RX_BUFFER_SIZE cfg - rx_rd else rx_count s)
      in case mem_read (rx_data s) (unat rx_rd) (unat rx_cnt) of
           None \<Rightarrow> Inl OutOfBounds
         | Some bytes \<Rightarrow>
             (case mem_write buffer (unat count) bytes of
                None \<Rightarrow> Inl OutOfBounds
              | Some buffer' \<Rightarrow>
                  Inr (count + rx_cnt, buffer',
                       s\<lparr>rx_read := (rx_rd + rx_cnt) AND (CDC_RX_BUFFER_SIZE cfg - 1),
                         rx_count := rx_count s - rx_cnt\<rparr>)))"

text \<open>\<open>while (count < size) { rx_count = _rx_count; if (rx_count == 0) break; ... }\<close>\<close>

fun read_loop :: "cdc_config \<Rightarrow> nat \<Rightarrow> u32 \<Rightarrow> u8 list \<Rightarrow> u32 \<Rightarrow> cdc \<Rightarrow> (u32 \<times> u8 list \<times> cdc) res" where
  "read_loop cfg 0 sz buffer count s = None"
| "read_loop cfg (Suc fuel) sz buffer count s =
     (if count < sz then
        (if rx_count s = 0 then Some (Inr (count, buffer, s))
         else
           (case read_chunk cfg buffer count s of
              Inl e \<Rightarrow> Some (Inl e)
            | Inr (count', buffer', s') \<Rightarrow> read_loop cfg fuel sz buffer' count' s'))
      else Some (Inr (count, buffer, s)))"

definition read_bulk :: "cdc_config \<Rightarrow> nat \<Rightarrow> u8 list \<Rightarrow> u32 \<Rightarrow> cdc \<Rightarrow> (u32 \<times> u8 list \<times> cdc) res" where
  "read_bulk cfg fuel buffer sz s = read_loop cfg fuel sz buffer 0 s"

subsection \<open>The event callback\<close>

text \<open>
  The receive half of \<open>CDC::EventCallback\<close>. One pass of the inner loop body, after the
  test \<open>rx_count == 0\<close>: the free span up to the end of the array is offered to the
  device stack, which stores what it has at \<open>&_rx_data[rx_write]\<close>; the result is
  \<open>rx_size\<close> with the object and the device afterwards.
\<close>

definition rx_pull :: "cdc_config \<Rightarrow> cdc \<times> usbd_cdc \<Rightarrow> fault + u32 \<times> cdc \<times> usbd_cdc" where
  "rx_pull cfg sd =
     (let s = fst sd; d = snd sd;
          rx_wr = rx_write s;
          rx_cnt = (if CDC_RX_BUFFER_SIZE cfg - rx_count s > CDC_RX_BUFFER_SIZE cfg - rx_wr
                    then CDC_RX_BUFFER_SIZE cfg - rx_wr
                    else CDC_RX_BUFFER_SIZE cfg - rx_count s);
          received = stm32l4_usbd_cdc_receive d (unat rx_cnt);
          rx_size = (word_of_nat (length (fst received)) :: u32)
      in case mem_write (rx_data s) (unat rx_wr) (fst received) of
           None \<Rightarrow> Inl OutOfBounds
         | Some data' \<Rightarrow>
             Inr (rx_size,
                  s\<lparr>rx_data := data',
                    rx_write := (rx_wr + rx_size) AND (CDC_RX_BUFFER_SIZE cfg - 1),
                    rx_count := rx_count s + rx_size\<rparr>,
                  snd received))"

text \<open>
  The inner loop: \<open>do { rx_count = CDC_RX_BUFFER_SIZE - _rx_count; if (rx_count == 0) break;
  ...; count += rx_size; } while (rx_size);\<close>
\<close>

fun rx_drain :: "cdc_config \<Rightarrow> nat \<Rightarrow> u32 \<Rightarrow> cdc \<times> usbd_cdc \<Rightarrow> (u32 \<times> cdc \<times> usbd_cdc) res" where
  "rx_drain cfg 0 count (s, d) = None"
| "rx_drain cfg (Suc fuel) count (s, d) =
     (if CDC_RX_BUFFER_SIZE cfg - rx_count s = 0 then Some (Inr (count, s, d))
      else
        (case rx_pull cfg (s, d) of
           Inl e \<Rightarrow> Some (Inl e)
         | Inr (rx_size, s', d') \<Rightarrow>
             (if rx_size \<noteq> 0 then rx_drain cfg fuel (count + rx_size) (s', d')
              else Some (Inr (count + rx_size, s', d')))))"

text \<open>
  The receive half, outer loop: \<open>while (_rx_count != CDC_RX_BUFFER_SIZE) { empty = ...;
  count = 0; do ... while (rx_size); if (empty && _receiveCallback) (*_receiveCallback)(count); }\<close>
\<close>

fun rx_event :: "cdc_config \<Rightarrow> nat \<Rightarrow> cdc \<times> usbd_cdc \<Rightarrow> (cdc \<times> usbd_cdc) res" where
  "rx_event cfg 0 (s, d) = None"
| "rx_event cfg (Suc fuel) (s, d) =
     (if rx_count s \<noteq> CDC_RX_BUFFER_SIZE cfg then
        (case rx_drain cfg fuel 0 (s, d) of
           None \<Rightarrow> None
         | Some (Inl e) \<Rightarrow> Some (Inl e)
         | Some (Inr (count, s', d')) \<Rightarrow>
             rx_event cfg fuel
               (s', if rx_count s = 0 \<and> receiveCallback s'
                    then d'\<lparr>receive_calls := receive_calls d' @ [count]\<rparr> else d'))
      else Some (Inr (s, d)))"

text \<open>
  Starting a packet. The source has this block three times (twice in \<open>write\<close>, once in
  \<open>EventCallback\<close>): the span from the read cursor, cut at the end of the array and at
  \<open>CDC_TX_PACKET_SIZE\<close>, is recorded in \<open>_tx_size\<close> and handed to the device stack.
\<close>

definition tx_start :: "cdc_config \<Rightarrow> cdc \<times> usbd_cdc \<Rightarrow> fault + cdc \<times> usbd_cdc" where
  "tx_start cfg sd =
     (let s = fst sd; d = snd sd;
          tx_rd = tx_read s;
          tx_sz1 = (if tx_count s > CDC_TX_BUFFER_SIZE cfg - tx_rd
                    then CDC_TX_BUFFER_SIZE cfg - tx_rd else tx_count s);
          tx_sz = (if tx_sz1 > CDC_TX_PACKET_SIZE cfg then CDC_TX_PACKET_SIZE cfg else tx_sz1)
      in case mem_read (tx_data s) (unat tx_rd) (unat tx_sz) of
           None \<Rightarrow> Inl OutOfBounds
         | Some packet \<Rightarrow> Inr (s\<lparr>tx_size := tx_sz\<rparr>, stm32l4_usbd_cdc_transmit d packet))"

text \<open>The transmit half of \<open>CDC::EventCallback\<close>.\<close>

definition tx_event :: "cdc_config \<Rightarrow> cdc \<times> usbd_cdc \<Rightarrow> fault + cdc \<times> usbd_cdc" where
  "tx_event cfg sd =
     (let s = fst sd; d = snd sd;
          tx_sz = tx_size s;
          s1 = s\<lparr>tx_read := (tx_read s + tx_sz) AND (CDC_TX_BUFFER_SIZE cfg - 1),
                 tx_count := tx_count s - tx_sz,
                 tx_total := tx_total s - tx_sz,
                 tx_size := 0\<rparr>
      in case (if tx_count s1 \<noteq> 0 then tx_start cfg (s1, d) else Inr (s1, d)) of
           Inl e \<Rightarrow> Inl e
         | Inr (s2, d2) \<Rightarrow>
             Inr (s2, if tx_total s2 = 0 \<and> transmitCallback s2
                      then d2\<lparr>transmit_calls := Suc (transmit_calls d2)\<rparr> else d2))"

text \<open>\<open>void CDC::EventCallback(uint32_t events)\<close>\<close>

definition EventCallback :: "cdc_config \<Rightarrow> nat \<Rightarrow> u32 \<Rightarrow> cdc \<times> usbd_cdc \<Rightarrow> (cdc \<times> usbd_cdc) res" where
  "EventCallback cfg fuel events sd =
     (case (if events AND USBD_CDC_EVENT_RECEIVE cfg \<noteq> 0 then rx_event cfg fuel sd
            else Some (Inr sd)) of
        None \<Rightarrow> None
      | Some (Inl e) \<Rightarrow> Some (Inl e)
      | Some (Inr sd1) \<Rightarrow>
          (if events AND USBD_CDC_EVENT_TRANSMIT cfg \<noteq> 0 then Some (tx_event cfg sd1)
           else Some (Inr sd1)))"

text \<open>
  Modelled from the spec: how the device stack raises the callback is not in the sources.
  By section 6 of the specification a transmission completes asynchronously and the
  completion is reported through the event callback; \<open>done\<close> is true again from then on.
\<close>

definition usbd_irq :: "cdc_config \<Rightarrow> nat \<Rightarrow> u32 \<Rightarrow> cdc \<times> usbd_cdc \<Rightarrow> (cdc \<times> usbd_cdc) res" where
  "usbd_irq cfg fuel events sd =
     EventCallback cfg fuel events
       (fst sd, if events AND USBD_CDC_EVENT_TRANSMIT cfg \<noteq> 0
                then (snd sd)\<lparr>tx_busy := False\<rparr> else snd sd)"

text \<open>
  Modelled from the spec: \<open>armv7m_core_yield\<close> is not in the sources. The caller cedes the
  processor; the next pending interrupt of the device, if there is one, runs the event
  callback before the caller continues.
\<close>

definition armv7m_core_yield :: "cdc_config \<Rightarrow> nat \<Rightarrow> cdc \<times> usbd_cdc \<Rightarrow> (cdc \<times> usbd_cdc) res" where
  "armv7m_core_yield cfg fuel sd =
     (let d1 = (snd sd)\<lparr>yields := Suc (yields (snd sd))\<rparr>
      in case irq_queue d1 of
           [] \<Rightarrow> Some (Inr (fst sd, d1))
         | events # pending \<Rightarrow> usbd_irq cfg fuel events (fst sd, d1\<lparr>irq_queue := pending\<rparr>))"

subsection \<open>Writing\<close>

text \<open>\<open>while (CDC_TX_BUFFER_SIZE == _tx_count) { armv7m_core_yield(); }\<close>\<close>

fun tx_wait :: "cdc_config \<Rightarrow> nat \<Rightarrow> cdc \<times> usbd_cdc \<Rightarrow> (cdc \<times> usbd_cdc) res" where
  "tx_wait cfg 0 (s, d) = None"
| "tx_wait cfg (Suc fuel) (s, d) =
     (if CDC_TX_BUFFER_SIZE cfg = tx_count s then
        (case armv7m_core_yield cfg fuel (s, d) of
           None \<Rightarrow> None
         | Some (Inl e) \<Rightarrow> Some (Inl e)
         | Some (Inr sd') \<Rightarrow> tx_wait cfg fuel sd')
      else Some (Inr (s, d)))"

text \<open>
  The branch \<open>if (tx_count == 0) { ... }\<close> of the queueing loop: with the buffer full, a
  packet is started if the device stack is idle, and the caller yields until the counter
  has moved.
\<close>

definition tx_make_room :: "cdc_config \<Rightarrow> nat \<Rightarrow> cdc \<times> usbd_cdc \<Rightarrow> (cdc \<times> usbd_cdc) res" where
  "tx_make_room cfg fuel sd =
     (if CDC_TX_BUFFER_SIZE cfg - tx_count (fst sd) = 0 then
        (case (if stm32l4_usbd_cdc_done (snd sd) then tx_start cfg sd else Inr sd) of
           Inl e \<Rightarrow> Some (Inl e)
         | Inr sd1 \<Rightarrow> tx_wait cfg fuel sd1)
      else Some (Inr sd))"

text \<open>
  The rest of the loop body: the free span, cut at the end of the array and at the bytes
  still to be queued, is copied from \<open>&buffer[count]\<close>; the result is the new \<open>count\<close>
  and the object afterwards.
\<close>

definition tx_queue :: "cdc_config \<Rightarrow> u8 list \<Rightarrow> u32 \<Rightarrow> u32 \<Rightarrow> cdc \<Rightarrow> fault + u32 \<times> cdc" where
  "tx_queue cfg buffer sz count s =
     (let tx_wr = tx_write s;
          tx_cnt1 = (if CDC_TX_BUFFER_SIZE cfg - tx_count s > CDC_TX_BUFFER_SIZE cfg - tx_wr
                     then CDC_TX_BUFFER_SIZE cfg - tx_wr
                     else CDC_TX_BUFFER_SIZE cfg - tx_count s);
          tx_cnt = (if tx_cnt1 > sz - count then sz - count else tx_cnt1)
      in case mem_read buffer (unat count) (unat tx_cnt) of
           None \<Rightarrow> Inl OutOfBounds
         | Some bytes \<Rightarrow>
             (case mem_write (tx_data s) (unat tx_wr) bytes of
                None \<Rightarrow> Inl OutOfBounds
              | Some data' \<Rightarrow>
                  Inr (count + tx_cnt,
                       s\<lparr>tx_data := data',
                         tx_write := (tx_wr + tx_cnt) AND (CDC_TX_BUFFER_SIZE cfg - 1),
                         tx_count := tx_count s + tx_cnt\<rparr>)))"

text \<open>The queueing loop of \<open>CDC::write\<close>: \<open>while (count < size) { ... }\<close>\<close>

fun write_loop :: "cdc_config \<Rightarrow> nat \<Rightarrow> u8 list \<Rightarrow> u32 \<Rightarrow> u32 \<Rightarrow> cdc \<times> usbd_cdc \<Rightarrow> (u32 \<times> cdc \<times> usbd_cdc) res" where
  "write_loop cfg 0 buffer sz count (s, d) = None"
| "write_loop cfg (Suc fuel) buffer sz count (s, d) =
     (if count < sz then
        (case tx_make_room cfg fuel (s, d) of
           None \<Rightarrow> None
         | Some (Inl e) \<Rightarrow> Some (Inl e)
         | Some (Inr (s1, d1)) \<Rightarrow>
             (case tx_queue cfg buffer sz count s1 of
                Inl e \<Rightarrow> Some (Inl e)
              | Inr (count', s2) \<Rightarrow> write_loop cfg fuel buffer sz count' (s2, d1)))
      else Some (Inr (count, s, d)))"

text \<open>
  \<open>size_t CDC::write(const uint8_t *buffer, size_t size)\<close>. \<open>ipsr\<close> is the value of
  \<open>__get_IPSR()\<close>: 0 in thread mode, the exception number in an interrupt handler.
\<close>

definition write_bulk :: "cdc_config \<Rightarrow> nat \<Rightarrow> u32 \<Rightarrow> u8 list \<Rightarrow> u32 \<Rightarrow> cdc \<times> usbd_cdc \<Rightarrow> (u32 \<times> cdc \<times> usbd_cdc) res" where
  "write_bulk cfg fuel ipsr buffer sz sd =
     (let s = fst sd; d = snd sd in
      if state d < USBD_CDC_STATE_READY cfg \<or> lineState d AND 2 = 0 then Some (Inr (0, s, d))
      else
        let sz1 = (if \<not> blocking s \<or> ipsr \<noteq> 0
                   then (if sz > CDC_TX_BUFFER_SIZE cfg - tx_count s
                         then CDC_TX_BUFFER_SIZE cfg - tx_count s else sz)
                   else sz)
        in case write_loop cfg fuel buffer sz1 0 (s\<lparr>tx_total := tx_total s + sz1\<rparr>, d) of
             None \<Rightarrow> None
           | Some (Inl e) \<Rightarrow> Some (Inl e)
           | Some (Inr (count, s1, d1)) \<Rightarrow>
               (if ipsr = 0 \<and> stm32l4_usbd_cdc_done d1 \<and> tx_count s1 \<noteq> 0
                then (case tx_start cfg (s1, d1) of
                        Inl e \<Rightarrow> Some (Inl e)
                      | Inr (s2, d2) \<Rightarrow> Some (Inr (count, s2, d2)))
                else Some (Inr (count, s1, d1))))"

text \<open>\<open>size_t CDC::write(const uint8_t data)\<close>\<close>

definition write_byte :: "cdc_config \<Rightarrow> nat \<Rightarrow> u32 \<Rightarrow> u8 \<Rightarrow> cdc \<times> usbd_cdc \<Rightarrow> (u32 \<times> cdc \<times> usbd_cdc) res" where
  "write_byte cfg fuel ipsr data sd = write_bulk cfg fuel ipsr [data] 1 sd"

subsection \<open>Sequences of operations\<close>

text \<open>
  The operations a foreground caller and the device can perform on the object, and what
  the world outside the object can do between two of them (\<open>Outside\<close> replaces the
  device side: the host changes the line state, bytes arrive, interrupts become pending).
\<close>

datatype op =
    Write u32 "u8 list" u32
  | WriteByte u32 u8
  | Read "u8 list" u32
  | ReadByte
  | Event u32
  | BlockOnOverrun bool
  | OnReceive bool
  | OnTransmit bool
  | Outside usbd_cdc

fun step :: "cdc_config \<Rightarrow> nat \<Rightarrow> op \<Rightarrow> cdc \<times> usbd_cdc \<Rightarrow> (cdc \<times> usbd_cdc) res" where
  "step cfg fuel (Write ipsr buffer sz) (s, d) =
     (case write_bulk cfg fuel ipsr buffer sz (s, d) of
        None \<Rightarrow> None | Some (Inl e) \<Rightarrow> Some (Inl e)
      | Some (Inr (n, s', d')) \<Rightarrow> Some (Inr (s', d')))"
| "step cfg fuel (WriteByte ipsr data) (s, d) =
     (case write_byte cfg fuel ipsr data (s, d) of
        None \<Rightarrow> None | Some (Inl e) \<Rightarrow> Some (Inl e)
      | Some (Inr (n, s', d')) \<Rightarrow> Some (Inr (s', d')))"
| "step cfg fuel (Read buffer sz) (s, d) =
     (case read_bulk cfg fuel buffer sz s of
        None \<Rightarrow> None | Some (Inl e) \<Rightarrow> Some (Inl e)
      | Some (Inr (n, buffer', s')) \<Rightarrow> Some (Inr (s', d)))"
| "step cfg fuel ReadByte (s, d) =
     (case read_byte cfg s of Inl e \<Rightarrow> Some (Inl e) | Inr (v, s') \<Rightarrow> Some (Inr (s', d)))"
| "step cfg fuel (Event events) (s, d) = EventCallback cfg fuel events (s, d)"
| "step cfg fuel (BlockOnOverrun block) (s, d) = Some (Inr (blockOnOverrun block s, d))"
| "step cfg fuel (OnReceive callback) (s, d) = Some (Inr (onReceive callback s, d))"
| "step cfg fuel (OnTransmit callback) (s, d) = Some (Inr (onTransmit callback s, d))"
| "step cfg fuel (Outside d') (s, d) = Some (Inr (s, d'))"

fun run :: "cdc_config \<Rightarrow> nat \<Rightarrow> op list \<Rightarrow> cdc \<times> usbd_cdc \<Rightarrow> (cdc \<times> usbd_cdc) res" where
  "run cfg fuel [] sd = Some (Inr sd)"
| "run cfg fuel (x # xs) sd =
     (case step cfg fuel x sd of
        None \<Rightarrow> None | Some (Inl e) \<Rightarrow> Some (Inl e)
      | Some (Inr sd') \<Rightarrow> run cfg fuel xs sd')"

subsection \<open>An example build and an example device\<close>

text \<open>
  Buffers of 64 bytes (the capacity of the specification's scenarios), a FIFO of 64
  bytes, and a device that is ready with both control lines asserted.
\<close>

definition cfg64 :: cdc_config where
  "cfg64 = \<lparr>CDC_RX_BUFFER_SIZE = 64, CDC_TX_BUFFER_SIZE = 64, UART_RX_BUFFER_SIZE = 64,
            USBD_CDC_FIFO_SIZE = 64, USBD_CDC_STATE_READY = 2,
            USBD_CDC_EVENT_RECEIVE = 1, USBD_CDC_EVENT_TRANSMIT = 2\<rparr>"

definition dev_ready :: usbd_cdc where
  "dev_ready = \<lparr>state = 2, lineState = 3, tx_busy = False, tx_log = [], rx_fifo = [],
                rx_arrivals = [], irq_queue = [], yields = 0, receive_calls = [],
                transmit_calls = 0\<rparr>"

text \<open>The same device before it has reached the ready state.\<close>

definition dev_not_ready :: usbd_cdc where
  "dev_not_ready = dev_ready\<lparr>state := 1\<rparr>"

subsection \<open>Partial correctness and the counter invariant\<close>

text \<open>
  \<open>holds m P\<close>: if the computation \<open>m\<close> returns (no fault, fuel left), its result
  satisfies \<open>P\<close>.
\<close>

definition holds :: "'a res \<Rightarrow> ('a \<Rightarrow> bool) \<Rightarrow> bool" where
  "holds m P = (case m of Some (Inr x) \<Rightarrow> P x | _ \<Rightarrow> True)"

text \<open>
  The arrays keep their declared sizes and the cursors stay inside them (every store to a
  cursor is masked with \<open>SIZE - 1\<close>).
\<close>

text \<open>
  The invariant of the object: the counters within their bounds, and the cursors inside
  the arrays. \<open>owed\<close> is the number of bytes a \<open>write\<close> in progress has added to
  \<open>_tx_total\<close> and not yet queued; between two operations it is 0.
\<close>

definition cursors_ok :: "cdc_config \<Rightarrow> cdc \<Rightarrow> bool" where
  "cursors_ok cfg s =
     (length (rx_data s) = unat (CDC_RX_BUFFER_SIZE cfg) \<and>
      length (tx_data s) = unat (CDC_TX_BUFFER_SIZE cfg) \<and>
      (rx_read s < CDC_RX_BUFFER_SIZE cfg \<and> rx_write s < CDC_RX_BUFFER_SIZE cfg
         \<or> CDC_RX_BUFFER_SIZE cfg = 0) \<and>
      (tx_read s < CDC_TX_BUFFER_SIZE cfg \<and> tx_write s < CDC_TX_BUFFER_SIZE cfg
         \<or> CDC_TX_BUFFER_SIZE cfg = 0))"

definition cdc_inv :: "cdc_config \<Rightarrow> u32 \<Rightarrow> cdc \<Rightarrow> bool" where
  "cdc_inv cfg owed s =
     (rx_count s \<le> CDC_RX_BUFFER_SIZE cfg \<and> tx_count s \<le> CDC_TX_BUFFER_SIZE cfg \<and>
      tx_size s \<le> tx_count s \<and> tx_total s = tx_count s + owed \<and> cursors_ok cfg s)"

subsection \<open>Well-formed transmit ring\<close>

text \<open>
  The buffer sizes are powers of two (the cursors are wrapped with \<open>& (SIZE - 1)\<close>).
\<close>

definition is_pow2 :: "u32 \<Rightarrow> bool" where
  "is_pow2 w = (w \<in> set (map (\<lambda>k. 2 ^ k) [0..<32]))"

text \<open>
  The transmit ring as every operation leaves it: the counter within the capacity, both
  cursors inside the array, the array of the declared size.
\<close>

definition tx_ring_ok :: "cdc_config \<Rightarrow> cdc \<Rightarrow> bool" where
  "tx_ring_ok cfg s =
     (tx_count s \<le> CDC_TX_BUFFER_SIZE cfg \<and> tx_read s < CDC_TX_BUFFER_SIZE cfg \<and>
      tx_write s < CDC_TX_BUFFER_SIZE cfg \<and> length (tx_data s) = unat (CDC_TX_BUFFER_SIZE cfg))"

subsection \<open>Well-formed receive ring\<close>

definition rx_ring_ok :: "cdc_config \<Rightarrow> cdc \<Rightarrow> bool" where
  "rx_ring_ok cfg s =
     (rx_count s \<le> CDC_RX_BUFFER_SIZE cfg \<and> rx_read s < CDC_RX_BUFFER_SIZE cfg \<and>
      rx_write s < CDC_RX_BUFFER_SIZE cfg \<and> length (rx_data s) = unat (CDC_RX_BUFFER_SIZE cfg))"

subsection \<open>The device in the round-trip scenario\<close>

text \<open>
  Modelled from the spec: the device-stack stub of the round-trip property (section 8)
  is not in the sources. What the device was handed for transmission comes back as
  received data.
\<close>

definition usbd_echo :: "usbd_cdc \<Rightarrow> usbd_cdc" where
  "usbd_echo d = d\<lparr>rx_fifo := rx_fifo d @ concat (tx_log d), tx_log := []\<rparr>"

text \<open>
  Modelled from the spec: the stub drains the transmitter, reporting the completion of
  each packet with a transmit event until no packet is in flight.
\<close>

fun usbd_drain :: "cdc_config \<Rightarrow> nat \<Rightarrow> cdc \<times> usbd_cdc \<Rightarrow> (cdc \<times> usbd_cdc) res" where
  "usbd_drain cfg 0 (s, d) = None"
| "usbd_drain cfg (Suc fuel) (s, d) =
     (if tx_busy d then
        (case usbd_irq cfg fuel (USBD_CDC_EVENT_TRANSMIT cfg) (s, d) of
           None \<Rightarrow> None
         | Some (Inl e) \<Rightarrow> Some (Inl e)
         | Some (Inr sd') \<Rightarrow> usbd_drain cfg fuel sd')
      else Some (Inr (s, d)))"

subsection \<open>Further example builds and sessions\<close>

text \<open>
  The scenario of the specification: \<open>blockOnOverrun(false)\<close>, then a write that fills
  the transmit buffer.
\<close>

definition full_nonblocking_ops :: "op list" where
  "full_nonblocking_ops = [BlockOnOverrun False, Write 0 (replicate 64 1) 64]"


text \<open>
  A build in which \<open>UART_RX_BUFFER_SIZE\<close> (16) differs from \<open>CDC_RX_BUFFER_SIZE\<close> (64),
  and a session in which the host sends 64 bytes and the device raises the receive event.
\<close>

definition cfg_uart16 :: cdc_config where
  "cfg_uart16 = cfg64\<lparr>UART_RX_BUFFER_SIZE := 16\<rparr>"

definition host_sends_64 :: "op list" where
  "host_sends_64 = [Outside (dev_ready\<lparr>rx_fifo := map word_of_nat [0..<64]\<rparr>), Event 1]"

subsection \<open>Accounting of transmitted packets\<close>

text \<open>
  \<open>tx_same\<close>: the transmit side of the object and of the device is unchanged.
\<close>

definition tx_same :: "cdc \<Rightarrow> usbd_cdc \<Rightarrow> cdc \<Rightarrow> usbd_cdc \<Rightarrow> bool" where
  "tx_same s d s' d' =
     (tx_count s' = tx_count s \<and> tx_size s' = tx_size s \<and> tx_log d' = tx_log d \<and>
      tx_busy d' = tx_busy d)"

text \<open>
  The packets handed to the device stack so far and the bytes still queued add up to the
  bytes accepted (\<open>base\<close>), the packet in flight being counted on both sides; no packet
  is longer than \<open>CDC_TX_PACKET_SIZE\<close>.
\<close>

definition tx_sum :: "cdc_config \<Rightarrow> nat \<Rightarrow> cdc \<Rightarrow> usbd_cdc \<Rightarrow> bool" where
  "tx_sum cfg base s d =
     (sum_list (map length (tx_log d)) + unat (tx_count s) = base + unat (tx_size s) \<and>
      tx_size s \<le> tx_count s \<and> tx_count s \<le> CDC_TX_BUFFER_SIZE cfg \<and>
      list_all (\<lambda>p. length p \<le> unat (CDC_TX_PACKET_SIZE cfg)) (tx_log d))"

text \<open>\<open>tx_acct\<close> adds: \<open>_tx_size\<close> is 0 whenever the device stack is idle.\<close>

definition tx_acct :: "cdc_config \<Rightarrow> nat \<Rightarrow> cdc \<Rightarrow> usbd_cdc \<Rightarrow> bool" where
  "tx_acct cfg base s d = (tx_sum cfg base s d \<and> (tx_busy d \<or> tx_size s = 0))"

text \<open>Queued bytes are on their way: a packet is in flight or the buffer is empty.\<close>

definition tx_kicked :: "cdc \<Rightarrow> usbd_cdc \<Rightarrow> bool" where
  "tx_kicked s d = (tx_busy d \<or> tx_count s = 0)"

subsection \<open>The states a call passes through\<close>

text \<open>
  A call is observed before it returns: the interrupt handler runs while \<open>write\<close> yields,
  a registered callback runs inside the event callback, and the receive loop of the event
  callback may never return at all. The functions below are the functions above with a
  log: beside the result they list the states of the object in the order in which the
  code produces them (after every block that stores to a member), up to the return, the
  fault or the end of the fuel.
\<close>

type_synonym 'a traced = "cdc list \<times> 'a res"

definition logged :: "cdc list \<Rightarrow> 'a traced \<Rightarrow> 'a traced" where
  "logged tr m = (tr @ fst m, snd m)"

text \<open>The inner receive loop: the object after every pass.\<close>

fun rx_drain_trace :: "cdc_config \<Rightarrow> nat \<Rightarrow> u32 \<Rightarrow> cdc \<times> usbd_cdc \<Rightarrow> (u32 \<times> cdc \<times> usbd_cdc) traced" where
  "rx_drain_trace cfg 0 count (s, d) = ([], None)"
| "rx_drain_trace cfg (Suc fuel) count (s, d) =
     (if CDC_RX_BUFFER_SIZE cfg - rx_count s = 0 then ([], Some (Inr (count, s, d)))
      else
        (case rx_pull cfg (s, d) of
           Inl e \<Rightarrow> ([], Some (Inl e))
         | Inr (rx_size, s', d') \<Rightarrow>
             logged [s']
               (if rx_size \<noteq> 0 then rx_drain_trace cfg fuel (count + rx_size) (s', d')
                else ([], Some (Inr (count + rx_size, s', d'))))))"

text \<open>
  The outer receive loop. The last state of a round is the one that the receive callback
  finds when it is called.
\<close>

fun rx_event_trace :: "cdc_config \<Rightarrow> nat \<Rightarrow> cdc \<times> usbd_cdc \<Rightarrow> (cdc \<times> usbd_cdc) traced" where
  "rx_event_trace cfg 0 (s, d) = ([], None)"
| "rx_event_trace cfg (Suc fuel) (s, d) =
     (if rx_count s \<noteq> CDC_RX_BUFFER_SIZE cfg then
        (case rx_drain_trace cfg fuel 0 (s, d) of
           (tr, None) \<Rightarrow> (tr, None)
         | (tr, Some (Inl e)) \<Rightarrow> (tr, Some (Inl e))
         | (tr, Some (Inr (count, s', d'))) \<Rightarrow>
             logged tr
               (rx_event_trace cfg fuel
                  (s', if rx_count s = 0 \<and> receiveCallback s'
                       then d'\<lparr>receive_calls := receive_calls d' @ [count]\<rparr> else d')))
      else ([], Some (Inr (s, d))))"

text \<open>
  \<open>CDC::EventCallback\<close>. The state logged for the transmit half is the one in which the
  handler evaluates \<open>_tx_total == 0\<close> and calls the transmit callback.
\<close>

definition EventCallback_trace :: "cdc_config \<Rightarrow> nat \<Rightarrow> u32 \<Rightarrow> cdc \<times> usbd_cdc \<Rightarrow> (cdc \<times> usbd_cdc) traced" where
  "EventCallback_trace cfg fuel events sd =
     (case (if events AND USBD_CDC_EVENT_RECEIVE cfg \<noteq> 0 then rx_event_trace cfg fuel sd
            else ([], Some (Inr sd))) of
        (tr, None) \<Rightarrow> (tr, None)
      | (tr, Some (Inl e)) \<Rightarrow> (tr, Some (Inl e))
      | (tr, Some (Inr sd1)) \<Rightarrow>
          logged tr
            (if events AND USBD_CDC_EVENT_TRANSMIT cfg \<noteq> 0 then
               (case tx_event cfg sd1 of
                  Inl e \<Rightarrow> ([], Some (Inl e))
                | Inr (s2, d2) \<Rightarrow> ([s2], Some (Inr (s2, d2))))
             else ([], Some (Inr sd1))))"

definition usbd_irq_trace :: "cdc_config \<Rightarrow> nat \<Rightarrow> u32 \<Rightarrow> cdc \<times> usbd_cdc \<Rightarrow> (cdc \<times> usbd_cdc) traced" where
  "usbd_irq_trace cfg fuel events sd =
     EventCallback_trace cfg fuel events
       (fst sd, if events AND USBD_CDC_EVENT_TRANSMIT cfg \<noteq> 0
                then (snd sd)\<lparr>tx_busy := False\<rparr> else snd sd)"

definition armv7m_core_yield_trace :: "cdc_config \<Rightarrow> nat \<Rightarrow> cdc \<times> usbd_cdc \<Rightarrow> (cdc \<times> usbd_cdc) traced" where
  "armv7m_core_yield_trace cfg fuel sd =
     (let d1 = (snd sd)\<lparr>yields := Suc (yields (snd sd))\<rparr>
      in case irq_queue d1 of
           [] \<Rightarrow> ([], Some (Inr (fst sd, d1)))
         | events # pending \<Rightarrow> usbd_irq_trace cfg fuel events (fst sd, d1\<lparr>irq_queue := pending\<rparr>))"

text \<open>\<open>CDC::write\<close>: the yield loop, the branch for the full buffer, the queueing loop.\<close>

fun tx_wait_trace :: "cdc_config \<Rightarrow> nat \<Rightarrow> cdc \<times> usbd_cdc \<Rightarrow> (cdc \<times> usbd_cdc) traced" where
  "tx_wait_trace cfg 0 (s, d) = ([], None)"
| "tx_wait_trace cfg (Suc fuel) (s, d) =
     (if CDC_TX_BUFFER_SIZE cfg = tx_count s then
        (case armv7m_core_yield_trace cfg fuel (s, d) of
           (tr, None) \<Rightarrow> (tr, None)
         | (tr, Some (Inl e)) \<Rightarrow> (tr, Some (Inl e))
         | (tr, Some (Inr sd')) \<Rightarrow> logged tr (tx_wait_trace cfg fuel sd'))
      else ([], Some (Inr (s, d))))"

definition tx_make_room_trace :: "cdc_config \<Rightarrow> nat \<Rightarrow> cdc \<times> usbd_cdc \<Rightarrow> (cdc \<times> usbd_cdc) traced" where
  "tx_make_room_trace cfg fuel sd =
     (if CDC_TX_BUFFER_SIZE cfg - tx_count (fst sd) = 0 then
        (case (if stm32l4_usbd_cdc_done (snd sd) then tx_start cfg sd else Inr sd) of
           Inl e \<Rightarrow> ([], Some (Inl e))
         | Inr sd1 \<Rightarrow> logged [fst sd1] (tx_wait_trace cfg fuel sd1))
      else ([], Some (Inr sd)))"

fun write_loop_trace :: "cdc_config \<Rightarrow> nat \<Rightarrow> u8 list \<Rightarrow> u32 \<Rightarrow> u32 \<Rightarrow> cdc \<times> usbd_cdc \<Rightarrow> (u32 \<times> cdc \<times> usbd_cdc) traced" where
  "write_loop_trace cfg 0 buffer sz count (s, d) = ([], None)"
| "write_loop_trace cfg (Suc fuel) buffer sz count (s, d) =
     (if count < sz then
        (case tx_make_room_trace cfg fuel (s, d) of
           (tr, None) \<Rightarrow> (tr, None)
         | (tr, Some (Inl e)) \<Rightarrow> (tr, Some (Inl e))
         | (tr, Some (Inr (s1, d1))) \<Rightarrow>
             logged tr
               (case tx_queue cfg buffer sz count s1 of
                  Inl e \<Rightarrow> ([], Some (Inl e))
                | Inr (count', s2) \<Rightarrow>
                    logged [s2] (write_loop_trace cfg fuel buffer sz count' (s2, d1))))
      else ([], Some (Inr (count, s, d))))"

text \<open>
  \<open>size_t CDC::write(const uint8_t *buffer, size_t size)\<close>. The first state logged is
  the object after \<open>armv7m_atomic_add(&_tx_total, size)\<close>.
\<close>

definition write_bulk_trace :: "cdc_config \<Rightarrow> nat \<Rightarrow> u32 \<Rightarrow> u8 list \<Rightarrow> u32 \<Rightarrow> cdc \<times> usbd_cdc \<Rightarrow> (u32 \<times> cdc \<times> usbd_cdc) traced" where
  "write_bulk_trace cfg fuel ipsr buffer sz sd =
     (let s = fst sd; d = snd sd in
      if state d < USBD_CDC_STATE_READY cfg \<or> lineState d AND 2 = 0
      then ([], Some (Inr (0, s, d)))
      else
        let sz1 = (if \<not> blocking s \<or> ipsr \<noteq> 0
                   then (if sz > CDC_TX_BUFFER_SIZE cfg - tx_count s
                         then CDC_TX_BUFFER_SIZE cfg - tx_count s else sz)
                   else sz)
        in logged [s\<lparr>tx_total := tx_total s + sz1\<rparr>]
             (case write_loop_trace cfg fuel buffer sz1 0 (s\<lparr>tx_total := tx_total s + sz1\<rparr>, d) of
                (tr, None) \<Rightarrow> (tr, None)
              | (tr, Some (Inl e)) \<Rightarrow> (tr, Some (Inl e))
              | (tr, Some (Inr (count, s1, d1))) \<Rightarrow>
                  logged tr
                    (if ipsr = 0 \<and> stm32l4_usbd_cdc_done d1 \<and> tx_count s1 \<noteq> 0
                     then (case tx_start cfg (s1, d1) of
                             Inl e \<Rightarrow> ([], Some (Inl e))
                           | Inr (s2, d2) \<Rightarrow> ([s2], Some (Inr (count, s2, d2))))
                     else ([], Some (Inr (count, s1, d1))))))"

definition write_byte_trace :: "cdc_config \<Rightarrow> nat \<Rightarrow> u32 \<Rightarrow> u8 \<Rightarrow> cdc \<times> usbd_cdc \<Rightarrow> (u32 \<times> cdc \<times> usbd_cdc) traced" where
  "write_byte_trace cfg fuel ipsr data sd = write_bulk_trace cfg fuel ipsr [data] 1 sd"

text \<open>\<open>size_t CDC::read(uint8_t *buffer, size_t size)\<close>\<close>

fun read_loop_trace :: "cdc_config \<Rightarrow> nat \<Rightarrow> u32 \<Rightarrow> u8 list \<Rightarrow> u32 \<Rightarrow> cdc \<Rightarrow> (u32 \<times> u8 list \<times> cdc) traced" where
  "read_loop_trace cfg 0 sz buffer count s = ([], None)"
| "read_loop_trace cfg (Suc fuel) sz buffer count s =
     (if count < sz then
        (if rx_count s = 0 then ([], Some (Inr (count, buffer, s)))
         else
           (case read_chunk cfg buffer count s of
              Inl e \<Rightarrow> ([], Some (Inl e))
            | Inr (count', buffer', s') \<Rightarrow>
                logged [s'] (read_loop_trace cfg fuel sz buffer' count' s')))
      else ([], Some (Inr (count, buffer, s))))"

definition read_bulk_trace :: "cdc_config \<Rightarrow> nat \<Rightarrow> u8 list \<Rightarrow> u32 \<Rightarrow> cdc \<Rightarrow> (u32 \<times> u8 list \<times> cdc) traced" where
  "read_bulk_trace cfg fuel buffer sz s = read_loop_trace cfg fuel sz buffer 0 s"

text \<open>
  One operation, and a sequence of operations: the object before the first operation,
  everything the operations pass through, and the object between two operations. An
  operation that does not return ends the log.
\<close>

fun step_trace :: "cdc_config \<Rightarrow> nat \<Rightarrow> op \<Rightarrow> cdc \<times> usbd_cdc \<Rightarrow> (cdc \<times> usbd_cdc) traced" where
  "step_trace cfg fuel (Write ipsr buffer sz) (s, d) =
     (case write_bulk_trace cfg fuel ipsr buffer sz (s, d) of
        (tr, None) \<Rightarrow> (tr, None)
      | (tr, Some (Inl e)) \<Rightarrow> (tr, Some (Inl e))
      | (tr, Some (Inr (n, s', d'))) \<Rightarrow> (tr, Some (Inr (s', d'))))"
| "step_trace cfg fuel (WriteByte ipsr data) (s, d) =
     (case write_byte_trace cfg fuel ipsr data (s, d) of
        (tr, None) \<Rightarrow> (tr, None)
      | (tr, Some (Inl e)) \<Rightarrow> (tr, Some (Inl e))
      | (tr, Some (Inr (n, s', d'))) \<Rightarrow> (tr, Some (Inr (s', d'))))"
| "step_trace cfg fuel (Read buffer sz) (s, d) =
     (case read_bulk_trace cfg fuel buffer sz s of
        (tr, None) \<Rightarrow> (tr, None)
      | (tr, Some (Inl e)) \<Rightarrow> (tr, Some (Inl e))
      | (tr, Some (Inr (n, buffer', s'))) \<Rightarrow> (tr, Some (Inr (s', d))))"
| "step_trace cfg fuel ReadByte (s, d) =
     (case read_byte cfg s of
        Inl e \<Rightarrow> ([], Some (Inl e))
      | Inr (v, s') \<Rightarrow> ([s'], Some (Inr (s', d))))"
| "step_trace cfg fuel (Event events) (s, d) = EventCallback_trace cfg fuel events (s, d)"
| "step_trace cfg fuel (BlockOnOverrun block) (s, d) =
     ([blockOnOverrun block s], Some (Inr (blockOnOverrun block s, d)))"
| "step_trace cfg fuel (OnReceive callback) (s, d) =
     ([onReceive callback s], Some (Inr (onReceive callback s, d)))"
| "step_trace cfg fuel (OnTransmit callback) (s, d) =
     ([onTransmit callback s], Some (Inr (onTransmit callback s, d)))"
| "step_trace cfg fuel (Outside d') (s, d) = ([], Some (Inr (s, d')))"

fun run_trace :: "cdc_config \<Rightarrow> nat \<Rightarrow> op list \<Rightarrow> cdc \<times> usbd_cdc \<Rightarrow> (cdc \<times> usbd_cdc) traced" where
  "run_trace cfg fuel [] (s, d) = ([s], Some (Inr (s, d)))"
| "run_trace cfg fuel (x # xs) (s, d) =
     logged [s]
       (case step_trace cfg fuel x (s, d) of
          (tr, None) \<Rightarrow> (tr, None)
        | (tr, Some (Inl e)) \<Rightarrow> (tr, Some (Inl e))
        | (tr, Some (Inr sd')) \<Rightarrow> logged tr (run_trace cfg fuel xs sd'))"

text \<open>The number of bytes an operation asks \<open>write\<close> to queue.\<close>

fun write_size :: "op \<Rightarrow> u32" where
  "write_size (Write ipsr buffer sz) = sz"
| "write_size (WriteByte ipsr data) = 1"
| "write_size x = 0"

text \<open>
  The invariant inside a \<open>write\<close> that was asked for at most \<open>m\<close> bytes: some of them are
  still owed to the buffer.
\<close>

definition inv_within :: "cdc_config \<Rightarrow> u32 \<Rightarrow> cdc \<Rightarrow> bool" where
  "inv_within cfg m s = (\<exists>owed. owed \<le> m \<and> cdc_inv cfg owed s)"

text \<open>
  Two sessions. In the first the host has sent three bytes and the device raises the
  receive event. In the second the application writes 100 bytes in blocking mode through
  the 64-byte buffer while the device completes two packets.
\<close>

definition receive_3_ops :: "op list" where
  "receive_3_ops = [Outside (dev_ready\<lparr>rx_fifo := [1, 2, 3]\<rparr>), Event 1]"

definition write_100_ops :: "op list" where
  "write_100_ops = [Write 0 (replicate 100 5) 100]"

section \<open>The counters stay within the buffers\<close>

lemma holds_simps [simp]:
  "holds None P" "holds (Some (Inl e)) P" "holds (Some (Inr x)) P = P x"
  by (simp_all add: holds_def)

lemma holdsD: "holds m P \<Longrightarrow> m = Some (Inr x) \<Longrightarrow> P x"
  by (simp add: holds_def)

lemma holds_bind:
  assumes "holds m P" and "\<And>x. P x \<Longrightarrow> holds (f x) Q"
  shows "holds (case m of None \<Rightarrow> None | Some (Inl e) \<Rightarrow> Some (Inl e) | Some (Inr x) \<Rightarrow> f x) Q"
proof (cases m)
  case None
  then show ?thesis by simp
next
  case (Some r)
  then show ?thesis using assms by (cases r) simp_all
qed

lemma holds_sum:
  assumes "\<And>x. m = Inr x \<Longrightarrow> holds (f x) Q"
  shows "holds (case m of Inl e \<Rightarrow> Some (Inl e) | Inr x \<Rightarrow> f x) Q"
  using assms by (auto split: sum.splits)

lemma res_pairE:
  assumes "case m of None \<Rightarrow> False | Some (Inl e) \<Rightarrow> False | Some (Inr (s, d)) \<Rightarrow> P s d"
  obtains s d where "m = Some (Inr (s, d))" "P s d"
proof (cases m)
  case None
  with assms show ?thesis by simp
next
  case (Some r)
  show ?thesis
  proof (cases r)
    case (Inl e)
    with assms Some show ?thesis by simp
  next
    case (Inr x)
    obtain s d where "x = (s, d)" by (cases x)
    with assms Some Inr that show ?thesis by simp
  qed
qed

lemma res_tripleE:
  assumes "case m of None \<Rightarrow> False | Some (Inl e) \<Rightarrow> False | Some (Inr (n, s, d)) \<Rightarrow> P n s d"
  obtains n s d where "m = Some (Inr (n, s, d))" "P n s d"
proof (cases m)
  case None
  with assms show ?thesis by simp
next
  case (Some r)
  show ?thesis
  proof (cases r)
    case (Inl e)
    with assms Some show ?thesis by simp
  next
    case (Inr x)
    obtain n s d where "x = (n, s, d)" by (cases x)
    with assms Some Inr that show ?thesis by simp
  qed
qed

lemma receive_length: "length (fst (stm32l4_usbd_cdc_receive d n)) \<le> n"
  by (simp add: stm32l4_usbd_cdc_receive_def Let_def)

lemma word_of_nat_bounded:
  fixes x :: u32
  assumes "n \<le> unat x"
  shows "(word_of_nat n :: u32) \<le> x"
  using assms by (simp add: word_le_nat_alt le_unat_uoi [OF assms])

lemma rx_span_le:
  fixes cap cnt wr :: u32
  shows "(if cap - cnt > cap - wr then cap - wr else cap - cnt) \<le> cap - cnt"
  by auto

lemma rx_add_le:
  fixes cap cnt x :: u32
  assumes "cnt \<le> cap" "x \<le> cap - cnt"
  shows "cnt + x \<le> cap"
  using assms by unat_arith

lemma word_sub_le_cap:
  fixes cap cnt x :: u32
  assumes "x \<le> cnt" "cnt \<le> cap"
  shows "cnt - x \<le> cap"
  using assms by unat_arith

lemma and_cap_less:
  fixes x cap :: u32
  assumes "cap \<noteq> 0"
  shows "x AND (cap - 1) < cap"
proof -
  have "x AND (cap - 1) \<le> cap - 1" by (rule word_and_le1)
  then have "unat (x AND (cap - 1)) \<le> unat cap - 1"
    using assms by (simp add: word_le_nat_alt unat_minus_one)
  moreover have "0 < unat cap" using assms by (simp add: unat_gt_0)
  ultimately show ?thesis by (simp add: word_less_nat_alt)
qed

lemma cursors_ok_frame [simp]:
  "cursors_ok cfg (s\<lparr>rx_count := a\<rparr>) = cursors_ok cfg s"
  "cursors_ok cfg (s\<lparr>tx_count := a\<rparr>) = cursors_ok cfg s"
  "cursors_ok cfg (s\<lparr>tx_size := a\<rparr>) = cursors_ok cfg s"
  "cursors_ok cfg (s\<lparr>tx_total := a\<rparr>) = cursors_ok cfg s"
  "cursors_ok cfg (s\<lparr>blocking := b\<rparr>) = cursors_ok cfg s"
  "cursors_ok cfg (s\<lparr>transmitCallback := b\<rparr>) = cursors_ok cfg s"
  "cursors_ok cfg (s\<lparr>receiveCallback := b\<rparr>) = cursors_ok cfg s"
  by (simp_all add: cursors_ok_def)

lemma cursors_ok_masked [simp]:
  "cursors_ok cfg s \<Longrightarrow> cursors_ok cfg (s\<lparr>rx_read := x AND (CDC_RX_BUFFER_SIZE cfg - 1)\<rparr>)"
  "cursors_ok cfg s \<Longrightarrow> cursors_ok cfg (s\<lparr>rx_write := x AND (CDC_RX_BUFFER_SIZE cfg - 1)\<rparr>)"
  "cursors_ok cfg s \<Longrightarrow> cursors_ok cfg (s\<lparr>tx_read := x AND (CDC_TX_BUFFER_SIZE cfg - 1)\<rparr>)"
  "cursors_ok cfg s \<Longrightarrow> cursors_ok cfg (s\<lparr>tx_write := x AND (CDC_TX_BUFFER_SIZE cfg - 1)\<rparr>)"
  by (auto simp: cursors_ok_def and_cap_less)

lemma cursors_ok_data [simp]:
  "cursors_ok cfg s \<Longrightarrow> length xs = length (rx_data s) \<Longrightarrow> cursors_ok cfg (s\<lparr>rx_data := xs\<rparr>)"
  "cursors_ok cfg s \<Longrightarrow> length xs = length (tx_data s) \<Longrightarrow> cursors_ok cfg (s\<lparr>tx_data := xs\<rparr>)"
  by (simp_all add: cursors_ok_def)

lemma mem_write_length: "mem_write dst off bytes = Some dst' \<Longrightarrow> length dst' = length dst"
  by (auto simp: mem_write_def split: if_splits)

lemma rx_pull_cursors:
  "cursors_ok cfg s \<Longrightarrow> rx_pull cfg (s, d) = Inr (rx_size, s', d') \<Longrightarrow> cursors_ok cfg s'"
  by (auto simp: rx_pull_def Let_def mem_write_length split: option.splits split del: if_split)

lemma tx_start_cursors:
  "cursors_ok cfg s \<Longrightarrow> tx_start cfg (s, d) = Inr (s', d') \<Longrightarrow> cursors_ok cfg s'"
  by (auto simp: tx_start_def Let_def split: option.splits split del: if_split)

lemma tx_queue_cursors:
  "cursors_ok cfg s \<Longrightarrow> tx_queue cfg buffer sz count s = Inr (count', s') \<Longrightarrow> cursors_ok cfg s'"
  by (auto simp: tx_queue_def Let_def mem_write_length split: option.splits split del: if_split)

lemma read_chunk_cursors:
  "cursors_ok cfg s \<Longrightarrow> read_chunk cfg buffer count s = Inr (count', buffer', s') \<Longrightarrow>
   cursors_ok cfg s'"
  by (auto simp: read_chunk_def Let_def split: option.splits split del: if_split)

lemma cdc_inv_cursors: "cdc_inv cfg owed s \<Longrightarrow> cursors_ok cfg s"
  by (simp add: cdc_inv_def)

lemma rx_pull_size:
  assumes "rx_pull cfg (s, d) = Inr (rx_size, s', d')"
  shows "rx_size \<le> CDC_RX_BUFFER_SIZE cfg - rx_count s"
    and "rx_count s' = rx_count s + rx_size"
    and "tx_count s' = tx_count s" "tx_size s' = tx_size s" "tx_total s' = tx_total s"
proof -
  let ?cap = "CDC_RX_BUFFER_SIZE cfg"
  let ?cnt = "(if ?cap - rx_count s > ?cap - rx_write s then ?cap - rx_write s else ?cap - rx_count s)"
  let ?rcv = "stm32l4_usbd_cdc_receive d (unat ?cnt)"
  have sz: "rx_size = word_of_nat (length (fst ?rcv))"
    using assms by (auto simp: rx_pull_def Let_def split: option.splits)
  have "word_of_nat (length (fst ?rcv)) \<le> ?cnt" by (rule word_of_nat_bounded) (rule receive_length)
  also have "?cnt \<le> ?cap - rx_count s" by (rule rx_span_le)
  finally show "rx_size \<le> ?cap - rx_count s" by (simp only: sz)
  show "rx_count s' = rx_count s + rx_size" "tx_count s' = tx_count s" "tx_size s' = tx_size s"
    "tx_total s' = tx_total s"
    using assms by (auto simp: rx_pull_def Let_def split: option.splits)
qed

lemma rx_pull_inv:
  assumes "cdc_inv cfg owed s" "rx_pull cfg (s, d) = Inr (rx_size, s', d')"
  shows "cdc_inv cfg owed s'"
proof -
  note p = rx_pull_size [OF assms(2)]
  have "rx_count s + rx_size \<le> CDC_RX_BUFFER_SIZE cfg"
    using assms(1) p(1) by (intro rx_add_le) (simp_all add: cdc_inv_def)
  then show ?thesis
    using assms(1) p rx_pull_cursors [OF cdc_inv_cursors [OF assms(1)] assms(2)]
    by (simp add: cdc_inv_def)
qed

lemma rx_drain_inv:
  "cdc_inv cfg owed s \<Longrightarrow>
   holds (rx_drain cfg fuel count (s, d)) (\<lambda>(c', s', d'). cdc_inv cfg owed s')"
proof (induction fuel arbitrary: count s d)
  case 0
  then show ?case by simp
next
  case (Suc fuel)
  show ?case
    using Suc.prems Suc.IH rx_pull_inv [OF Suc.prems]
    by (auto split: sum.splits)
qed

lemma rx_event_inv:
  "cdc_inv cfg owed s \<Longrightarrow>
   holds (rx_event cfg fuel (s, d)) (\<lambda>(s', d'). cdc_inv cfg owed s')"
proof (induction fuel arbitrary: s d)
  case 0
  then show ?case by simp
next
  case (Suc fuel)
  show ?case
  proof (cases "rx_count s \<noteq> CDC_RX_BUFFER_SIZE cfg")
    case False
    with Suc.prems show ?thesis by simp
  next
    case True
    have "holds (rx_drain cfg fuel 0 (s, d)) (\<lambda>(c', s', d'). cdc_inv cfg owed s')"
      using Suc.prems by (rule rx_drain_inv)
    then show ?thesis
      using True
      by (auto simp: holds_def split: option.splits sum.splits dest: holdsD [OF Suc.IH])
  qed
qed

lemma tx_start_inv:
  "cdc_inv cfg owed s \<Longrightarrow> tx_start cfg (s, d) = Inr (s', d') \<Longrightarrow> cdc_inv cfg owed s'"
  by (auto simp: tx_start_def Let_def cdc_inv_def split: option.splits if_splits)

lemma tx_event_inv:
  "cdc_inv cfg owed s \<Longrightarrow> tx_event cfg (s, d) = Inr (s', d') \<Longrightarrow> cdc_inv cfg owed s'"
proof -
  assume inv: "cdc_inv cfg owed s" and ev: "tx_event cfg (s, d) = Inr (s', d')"
  let ?s1 = "s\<lparr>tx_read := (tx_read s + tx_size s) AND (CDC_TX_BUFFER_SIZE cfg - 1),
                 tx_count := tx_count s - tx_size s,
                 tx_total := tx_total s - tx_size s,
                 tx_size := 0\<rparr>"
  have "tx_count s - tx_size s \<le> CDC_TX_BUFFER_SIZE cfg"
    using inv by (intro word_sub_le_cap) (simp_all add: cdc_inv_def)
  then have inv1: "cdc_inv cfg owed ?s1"
    using inv by (simp add: cdc_inv_def)
  show ?thesis
    using ev inv1 tx_start_inv [OF inv1]
    by (auto simp: tx_event_def Let_def split: sum.splits if_splits)
qed

lemma EventCallback_inv:
  "cdc_inv cfg owed s \<Longrightarrow>
   holds (EventCallback cfg fuel events (s, d)) (\<lambda>(s', d'). cdc_inv cfg owed s')"
  using rx_event_inv [of cfg owed s fuel d]
  by (auto simp: EventCallback_def holds_def split: option.splits sum.splits dest: tx_event_inv)

lemma usbd_irq_inv:
  "cdc_inv cfg owed s \<Longrightarrow>
   holds (usbd_irq cfg fuel events (s, d)) (\<lambda>(s', d'). cdc_inv cfg owed s')"
  by (simp add: usbd_irq_def EventCallback_inv)

lemma armv7m_core_yield_inv:
  "cdc_inv cfg owed s \<Longrightarrow>
   holds (armv7m_core_yield cfg fuel (s, d)) (\<lambda>(s', d'). cdc_inv cfg owed s')"
  by (simp add: armv7m_core_yield_def Let_def usbd_irq_inv split: list.splits)

lemma tx_wait_inv:
  "cdc_inv cfg owed s \<Longrightarrow>
   holds (tx_wait cfg fuel (s, d)) (\<lambda>(s', d'). cdc_inv cfg owed s')"
proof (induction fuel arbitrary: s d)
  case 0
  then show ?case by simp
next
  case (Suc fuel)
  have "holds (armv7m_core_yield cfg fuel (s, d)) (\<lambda>(s', d'). cdc_inv cfg owed s')"
    using Suc.prems by (rule armv7m_core_yield_inv)
  then show ?case
    using Suc.prems
    by (auto simp: holds_def split: option.splits sum.splits dest: holdsD [OF Suc.IH])
qed

lemma tx_make_room_inv:
  "cdc_inv cfg owed s \<Longrightarrow>
   holds (tx_make_room cfg fuel (s, d)) (\<lambda>(s', d'). cdc_inv cfg owed s')"
  using tx_wait_inv [of cfg owed _ fuel]
  by (auto simp: tx_make_room_def split: sum.splits dest: tx_start_inv)

lemma tx_queue_arith:
  fixes cap cnt x sz count :: u32
  assumes "cnt \<le> cap" "x \<le> cap - cnt" "x \<le> sz - count" "count \<le> sz"
  shows "cnt + x \<le> cap" "count + x \<le> sz" "cnt \<le> cnt + x"
    "cnt + (sz - count) = cnt + x + (sz - (count + x))"
  using assms by (unat_arith, unat_arith, unat_arith, simp)

lemma tx_span_le:
  fixes cap cnt wr rest :: u32
  shows "(if (if cap - cnt > cap - wr then cap - wr else cap - cnt) > rest then rest
          else (if cap - cnt > cap - wr then cap - wr else cap - cnt)) \<le> cap - cnt"
    "(if (if cap - cnt > cap - wr then cap - wr else cap - cnt) > rest then rest
          else (if cap - cnt > cap - wr then cap - wr else cap - cnt)) \<le> rest"
  by auto

lemma tx_queue_inv:
  assumes "cdc_inv cfg (sz - count) s" "count \<le> sz" "tx_queue cfg buffer sz count s = Inr (count', s')"
  shows "cdc_inv cfg (sz - count') s' \<and> count' \<le> sz"
proof -
  let ?cap = "CDC_TX_BUFFER_SIZE cfg"
  let ?c1 = "(if ?cap - tx_count s > ?cap - tx_write s then ?cap - tx_write s
              else ?cap - tx_count s)"
  let ?cnt = "(if ?c1 > sz - count then sz - count else ?c1)"
  have le1: "?cnt \<le> ?cap - tx_count s" and le2: "?cnt \<le> sz - count"
    by (rule tx_span_le)+
  have cap: "tx_count s \<le> ?cap" using assms(1) by (simp add: cdc_inv_def)
  note ar = tx_queue_arith [OF cap le1 le2 assms(2)]
  have res: "count' = count + ?cnt" "rx_count s' = rx_count s" "tx_count s' = tx_count s + ?cnt"
    "tx_size s' = tx_size s" "tx_total s' = tx_total s"
    using assms(3)
    by (auto simp: tx_queue_def Let_def split: option.splits split del: if_split)
  have "tx_size s \<le> tx_count s" using assms(1) by (simp add: cdc_inv_def)
  also have "tx_count s \<le> tx_count s + ?cnt" by (rule ar(3))
  finally have "tx_size s \<le> tx_count s + ?cnt" .
  then show ?thesis
    using assms(1) ar(1,2) res tx_queue_cursors [OF cdc_inv_cursors [OF assms(1)] assms(3)]
    by (simp add: cdc_inv_def)
qed

lemma write_loop_inv:
  "cdc_inv cfg (sz - count) s \<Longrightarrow> count \<le> sz \<Longrightarrow>
   holds (write_loop cfg fuel buffer sz count (s, d)) (\<lambda>(n, s', d'). cdc_inv cfg 0 s' \<and> n = sz)"
proof (induction fuel arbitrary: count s d)
  case 0
  then show ?case by simp
next
  case (Suc fuel)
  show ?case
  proof (cases "count < sz")
    case False
    with Suc.prems have "count = sz" by simp
    with Suc.prems show ?thesis by (simp add: cdc_inv_def)
  next
    case True
    have "holds (case tx_make_room cfg fuel (s, d) of
           None \<Rightarrow> None
         | Some (Inl e) \<Rightarrow> Some (Inl e)
         | Some (Inr (s1, d1)) \<Rightarrow>
             (case tx_queue cfg buffer sz count s1 of
                Inl e \<Rightarrow> Some (Inl e)
              | Inr (count', s2) \<Rightarrow> write_loop cfg fuel buffer sz count' (s2, d1)))
          (\<lambda>(n, s', d'). cdc_inv cfg 0 s' \<and> n = sz)"
    proof (rule holds_bind [OF tx_make_room_inv [OF Suc.prems(1)]], clarify)
      fix s1 d1
      assume inv1: "cdc_inv cfg (sz - count) s1"
      show "holds (case tx_queue cfg buffer sz count s1 of
                Inl e \<Rightarrow> Some (Inl e)
              | Inr (count', s2) \<Rightarrow> write_loop cfg fuel buffer sz count' (s2, d1))
             (\<lambda>(n, s', d'). cdc_inv cfg 0 s' \<and> n = sz)"
      proof (rule holds_sum, clarify)
        fix count' s2
        assume "tx_queue cfg buffer sz count s1 = Inr (count', s2)"
        from tx_queue_inv [OF inv1 Suc.prems(2) this]
        show "holds (write_loop cfg fuel buffer sz count' (s2, d1))
               (\<lambda>(n, s', d'). cdc_inv cfg 0 s' \<and> n = sz)"
          by (intro Suc.IH) simp_all
      qed
    qed
    with True show ?thesis by simp
  qed
qed


lemma write_bulk_inv:
  assumes "cdc_inv cfg 0 s"
  shows "holds (write_bulk cfg fuel ipsr buffer sz (s, d)) (\<lambda>(n, s', d'). cdc_inv cfg 0 s')"
proof -
  have start: "cdc_inv cfg (sz1 - 0) (s\<lparr>tx_total := tx_total s + sz1\<rparr>)" for sz1
    using assms by (simp add: cdc_inv_def)
  have loop: "holds (write_loop cfg fuel buffer sz1 0 (s\<lparr>tx_total := tx_total s + sz1\<rparr>, d))
      (\<lambda>(n, s', d'). cdc_inv cfg 0 s' \<and> n = sz1)" for sz1
    by (rule write_loop_inv [OF start]) simp
  have fin: "holds (case write_loop cfg fuel buffer sz1 0 (s\<lparr>tx_total := tx_total s + sz1\<rparr>, d) of
             None \<Rightarrow> None
           | Some (Inl e) \<Rightarrow> Some (Inl e)
           | Some (Inr (count, s1, d1)) \<Rightarrow>
               (if ipsr = 0 \<and> stm32l4_usbd_cdc_done d1 \<and> tx_count s1 \<noteq> 0
                then (case tx_start cfg (s1, d1) of
                        Inl e \<Rightarrow> Some (Inl e)
                      | Inr (s2, d2) \<Rightarrow> Some (Inr (count, s2, d2)))
                else Some (Inr (count, s1, d1))))
          (\<lambda>(n, s', d'). cdc_inv cfg 0 s')" for sz1
    by (rule holds_bind [OF loop]) (auto split: sum.splits dest: tx_start_inv)
  show ?thesis
  proof (cases "state d < USBD_CDC_STATE_READY cfg \<or> lineState d AND 2 = 0")
    case True
    with assms show ?thesis by (simp add: write_bulk_def)
  next
    case False
    then show ?thesis using fin by (simp add: write_bulk_def Let_def split del: if_split)
  qed
qed

lemma read_chunk_inv:
  assumes "cdc_inv cfg owed s" "read_chunk cfg buffer count s = Inr (count', buffer', s')"
  shows "cdc_inv cfg owed s'"
proof -
  let ?cnt = "(if rx_count s > UART_RX_BUFFER_SIZE cfg - rx_read s
               then UART_RX_BUFFER_SIZE cfg - rx_read s else rx_count s)"
  have le: "?cnt \<le> rx_count s" by auto
  have res: "rx_count s' = rx_count s - ?cnt" "tx_count s' = tx_count s"
    "tx_size s' = tx_size s" "tx_total s' = tx_total s"
    using assms(2)
    by (auto simp: read_chunk_def Let_def split: option.splits split del: if_split)
  have "rx_count s - ?cnt \<le> CDC_RX_BUFFER_SIZE cfg"
    using le assms(1) by (intro word_sub_le_cap) (simp_all add: cdc_inv_def)
  then show ?thesis
    using assms(1) res read_chunk_cursors [OF cdc_inv_cursors [OF assms(1)] assms(2)]
    by (simp add: cdc_inv_def)
qed

lemma read_loop_inv:
  "cdc_inv cfg owed s \<Longrightarrow>
   holds (read_loop cfg fuel sz buffer count s) (\<lambda>(n, b, s'). cdc_inv cfg owed s')"
proof (induction fuel arbitrary: buffer count s)
  case 0
  then show ?case by simp
next
  case (Suc fuel)
  show ?case
    using Suc.prems Suc.IH read_chunk_inv [OF Suc.prems]
    by (auto split: sum.splits)
qed

lemma read_byte_inv:
  assumes "cdc_inv cfg owed s" "read_byte cfg s = Inr (v, s')"
  shows "cdc_inv cfg owed s'"
proof (cases "rx_count s = 0")
  case True
  with assms show ?thesis by (simp add: read_byte_def)
next
  case False
  have "1 \<le> rx_count s" using False by (simp add: word_le_nat_alt unat_gt_0 Suc_le_eq)
  then have "rx_count s - 1 \<le> CDC_RX_BUFFER_SIZE cfg"
    using assms(1) by (intro word_sub_le_cap) (simp_all add: cdc_inv_def)
  with assms False show ?thesis
    by (auto simp: read_byte_def cdc_inv_def split: if_splits)
qed

lemma step_inv:
  assumes "cdc_inv cfg 0 s"
  shows "holds (step cfg fuel x (s, d)) (\<lambda>(s', d'). cdc_inv cfg 0 s')"
proof (cases x)
  case (Write ipsr buffer sz)
  show ?thesis
    using write_bulk_inv [OF assms, of fuel ipsr buffer sz d]
    by (auto simp: Write holds_def split: option.splits sum.splits)
next
  case (WriteByte ipsr data)
  show ?thesis
    using write_bulk_inv [OF assms, of fuel ipsr "[data]" 1 d]
    by (auto simp: WriteByte write_byte_def holds_def split: option.splits sum.splits)
next
  case (Read buffer sz)
  show ?thesis
    using read_loop_inv [OF assms, of fuel sz buffer 0]
    by (auto simp: Read read_bulk_def holds_def split: option.splits sum.splits)
next
  case ReadByte
  show ?thesis
    using assms by (auto simp: ReadByte split: sum.splits dest: read_byte_inv)
next
  case (Event events)
  show ?thesis using EventCallback_inv [OF assms] by (simp add: Event)
next
  case (BlockOnOverrun b)
  show ?thesis using assms by (simp add: BlockOnOverrun blockOnOverrun_def cdc_inv_def)
next
  case (OnReceive b)
  show ?thesis using assms by (simp add: OnReceive onReceive_def cdc_inv_def)
next
  case (OnTransmit b)
  show ?thesis using assms by (simp add: OnTransmit onTransmit_def cdc_inv_def)
next
  case (Outside d')
  show ?thesis using assms by (simp add: Outside)
qed

lemma run_inv:
  "cdc_inv cfg 0 s \<Longrightarrow> holds (run cfg fuel xs (s, d)) (\<lambda>(s', d'). cdc_inv cfg 0 s')"
proof (induction xs arbitrary: s d)
  case Nil
  then show ?case by simp
next
  case (Cons x xs)
  have "holds (case step cfg fuel x (s, d) of
        None \<Rightarrow> None | Some (Inl e) \<Rightarrow> Some (Inl e)
      | Some (Inr sd') \<Rightarrow> run cfg fuel xs sd') (\<lambda>(s', d'). cdc_inv cfg 0 s')"
    by (rule holds_bind [OF step_inv [OF Cons.prems]]) (auto intro: Cons.IH)
  then show ?case by simp
qed

lemma CDC_init_inv: "cdc_inv cfg 0 (CDC_init cfg)"
  by (auto simp: cdc_inv_def cursors_ok_def CDC_init_def word_greater_zero_iff)

section \<open>The counters at every point of a session\<close>

text \<open>
  The logging functions return what the plain functions return, so the log is the log of
  the calls verified in the other sections.
\<close>

lemma logged_simps [simp]:
  "fst (logged tr m) = tr @ fst m" "snd (logged tr m) = snd m"
  by (simp_all add: logged_def)

lemma traced_snd:
  "snd (case m of (tr, None) \<Rightarrow> (tr, None)
              | (tr, Some (Inl e)) \<Rightarrow> (tr, Some (Inl e))
              | (tr, Some (Inr x)) \<Rightarrow> g tr x)
   = (case snd m of None \<Rightarrow> None | Some (Inl e) \<Rightarrow> Some (Inl e)
      | Some (Inr x) \<Rightarrow> snd (g (fst m) x))"
  by (auto split: prod.splits option.splits sum.splits)

lemma traced_fstE:
  assumes "s \<in> set (fst (case m of (tr, None) \<Rightarrow> (tr, None)
              | (tr, Some (Inl e)) \<Rightarrow> (tr, Some (Inl e))
              | (tr, Some (Inr x)) \<Rightarrow> g tr x))"
  obtains "s \<in> set (fst m)"
  | x where "snd m = Some (Inr x)" "s \<in> set (fst (g (fst m) x))"
  using assms by (auto split: prod.splits option.splits sum.splits)

lemma snd_case_prod: "snd (case p of (a, b) \<Rightarrow> f a b) = (case p of (a, b) \<Rightarrow> snd (f a b))"
  by (cases p) simp

lemma fst_case_prod: "fst (case p of (a, b) \<Rightarrow> f a b) = (case p of (a, b) \<Rightarrow> fst (f a b))"
  by (cases p) simp

lemma rx_drain_trace_result:
  "snd (rx_drain_trace cfg fuel count (s, d)) = rx_drain cfg fuel count (s, d)"
  by (induction fuel arbitrary: count s d) (auto split: sum.splits)

lemma rx_event_trace_result:
  "snd (rx_event_trace cfg fuel (s, d)) = rx_event cfg fuel (s, d)"
  by (induction fuel arbitrary: s d)
    (auto simp: traced_snd snd_case_prod rx_drain_trace_result split: option.splits sum.splits)

lemma EventCallback_trace_result:
  "snd (EventCallback_trace cfg fuel events sd) = EventCallback cfg fuel events sd"
proof (cases sd)
  case (Pair s d)
  show ?thesis
    by (auto simp: Pair EventCallback_trace_def EventCallback_def traced_snd rx_event_trace_result
        split: option.splits sum.splits)
qed

lemma usbd_irq_trace_result:
  "snd (usbd_irq_trace cfg fuel events sd) = usbd_irq cfg fuel events sd"
  by (simp add: usbd_irq_trace_def usbd_irq_def EventCallback_trace_result)

lemma armv7m_core_yield_trace_result:
  "snd (armv7m_core_yield_trace cfg fuel sd) = armv7m_core_yield cfg fuel sd"
  by (simp add: armv7m_core_yield_trace_def armv7m_core_yield_def Let_def usbd_irq_trace_result
      split: list.splits)

lemma tx_wait_trace_result:
  "snd (tx_wait_trace cfg fuel (s, d)) = tx_wait cfg fuel (s, d)"
proof (induction fuel arbitrary: s d)
  case 0
  show ?case by simp
next
  case (Suc fuel)
  have "snd (tx_wait_trace cfg fuel sd') = tx_wait cfg fuel sd'" for sd'
    using Suc.IH [of "fst sd'" "snd sd'"] by simp
  then show ?case
    by (auto simp: traced_snd armv7m_core_yield_trace_result split: option.splits sum.splits)
qed

lemma tx_make_room_trace_result:
  "snd (tx_make_room_trace cfg fuel sd) = tx_make_room cfg fuel sd"
proof -
  have "snd (tx_wait_trace cfg fuel sd') = tx_wait cfg fuel sd'" for sd'
    using tx_wait_trace_result [of cfg fuel "fst sd'" "snd sd'"] by simp
  then show ?thesis
    by (auto simp: tx_make_room_trace_def tx_make_room_def split: sum.splits)
qed

lemma write_loop_trace_result:
  "snd (write_loop_trace cfg fuel buffer sz count (s, d)) = write_loop cfg fuel buffer sz count (s, d)"
proof (induction fuel arbitrary: count s d)
  case 0
  show ?case by simp
next
  case (Suc fuel)
  show ?case
    by (auto simp: traced_snd snd_case_prod tx_make_room_trace_result Suc.IH
        split: option.splits sum.splits)
qed

lemma write_bulk_trace_result:
  "snd (write_bulk_trace cfg fuel ipsr buffer sz sd) = write_bulk cfg fuel ipsr buffer sz sd"
proof (cases sd)
  case (Pair s d)
  have tail: "snd (logged [s0]
             (case write_loop_trace cfg fuel buffer sz1 0 (s0, d) of
                (tr, None) \<Rightarrow> (tr, None)
              | (tr, Some (Inl e)) \<Rightarrow> (tr, Some (Inl e))
              | (tr, Some (Inr (count, s1, d1))) \<Rightarrow>
                  logged tr
                    (if ipsr = 0 \<and> stm32l4_usbd_cdc_done d1 \<and> tx_count s1 \<noteq> 0
                     then (case tx_start cfg (s1, d1) of
                             Inl e \<Rightarrow> ([], Some (Inl e))
                           | Inr (s2, d2) \<Rightarrow> ([s2], Some (Inr (count, s2, d2))))
                     else ([], Some (Inr (count, s1, d1))))))
      = (case write_loop cfg fuel buffer sz1 0 (s0, d) of
             None \<Rightarrow> None
           | Some (Inl e) \<Rightarrow> Some (Inl e)
           | Some (Inr (count, s1, d1)) \<Rightarrow>
               (if ipsr = 0 \<and> stm32l4_usbd_cdc_done d1 \<and> tx_count s1 \<noteq> 0
                then (case tx_start cfg (s1, d1) of
                        Inl e \<Rightarrow> Some (Inl e)
                      | Inr (s2, d2) \<Rightarrow> Some (Inr (count, s2, d2)))
                else Some (Inr (count, s1, d1))))" for sz1 s0
    by (auto simp: traced_snd snd_case_prod write_loop_trace_result
        split: option.splits sum.splits)
  show ?thesis
  proof (cases "state d < USBD_CDC_STATE_READY cfg \<or> lineState d AND 2 = 0")
    case True
    then show ?thesis by (simp add: Pair write_bulk_trace_def write_bulk_def)
  next
    case False
    show ?thesis
      unfolding Pair write_bulk_trace_def write_bulk_def Let_def fst_conv snd_conv
      by (simp only: False if_False tail)
  qed
qed

lemma read_loop_trace_result:
  "snd (read_loop_trace cfg fuel sz buffer count s) = read_loop cfg fuel sz buffer count s"
  by (induction fuel arbitrary: buffer count s) (auto split: sum.splits)

lemma step_trace_result:
  "snd (step_trace cfg fuel x (s, d)) = step cfg fuel x (s, d)"
proof (cases x)
  case (Write ipsr buffer sz)
  show ?thesis
    using write_bulk_trace_result [of cfg fuel ipsr buffer sz "(s, d)"]
    by (auto simp: Write split: prod.splits option.splits sum.splits)
next
  case (WriteByte ipsr data)
  show ?thesis
    using write_bulk_trace_result [of cfg fuel ipsr "[data]" 1 "(s, d)"]
    by (auto simp: WriteByte write_byte_trace_def write_byte_def
        split: prod.splits option.splits sum.splits)
next
  case (Read buffer sz)
  show ?thesis
    using read_loop_trace_result [of cfg fuel sz buffer 0 s]
    by (auto simp: Read read_bulk_trace_def read_bulk_def
        split: prod.splits option.splits sum.splits)
next
  case ReadByte
  show ?thesis by (auto simp: ReadByte split: sum.splits)
next
  case (Event events)
  show ?thesis by (simp add: Event EventCallback_trace_result)
qed simp_all

lemma run_trace_result:
  "snd (run_trace cfg fuel xs (s, d)) = run cfg fuel xs (s, d)"
proof (induction xs arbitrary: s d)
  case Nil
  show ?case by simp
next
  case (Cons x xs)
  have "snd (run_trace cfg fuel xs sd') = run cfg fuel xs sd'" for sd'
    using Cons.IH [of "fst sd'" "snd sd'"] by simp
  then show ?case
    by (auto simp: traced_snd step_trace_result split: option.splits sum.splits)
qed

text \<open>Every state in the log satisfies the invariant of the object.\<close>

lemma rx_drain_trace_inv:
  "cdc_inv cfg owed s \<Longrightarrow> s' \<in> set (fst (rx_drain_trace cfg fuel count (s, d))) \<Longrightarrow>
   cdc_inv cfg owed s'"
proof (induction fuel arbitrary: count s d)
  case 0
  then show ?case by simp
next
  case (Suc fuel)
  show ?case
    using Suc.prems Suc.IH rx_pull_inv [OF Suc.prems(1)]
    by (fastforce split: sum.splits if_splits)
qed

lemma rx_drain_trace_final:
  "rx_drain cfg fuel count (s, d) = Some (Inr (count', s', d')) \<Longrightarrow>
   s' = s \<or> s' \<in> set (fst (rx_drain_trace cfg fuel count (s, d)))"
proof (induction fuel arbitrary: count s d)
  case 0
  then show ?case by simp
next
  case (Suc fuel)
  show ?case
    using Suc.prems Suc.IH
    by (fastforce split: sum.splits if_splits)
qed

lemma rx_event_trace_inv:
  "cdc_inv cfg owed s \<Longrightarrow> s' \<in> set (fst (rx_event_trace cfg fuel (s, d))) \<Longrightarrow>
   cdc_inv cfg owed s'"
proof (induction fuel arbitrary: s d)
  case 0
  then show ?case by simp
next
  case (Suc fuel)
  show ?case
  proof (cases "rx_count s \<noteq> CDC_RX_BUFFER_SIZE cfg")
    case False
    with Suc.prems show ?thesis by simp
  next
    case True
    with Suc.prems(2) have "s' \<in> set (fst (case rx_drain_trace cfg fuel 0 (s, d) of
           (tr, None) \<Rightarrow> (tr, None)
         | (tr, Some (Inl e)) \<Rightarrow> (tr, Some (Inl e))
         | (tr, Some (Inr (count, s', d'))) \<Rightarrow>
             logged tr
               (rx_event_trace cfg fuel
                  (s', if rx_count s = 0 \<and> receiveCallback s'
                       then d'\<lparr>receive_calls := receive_calls d' @ [count]\<rparr> else d'))))"
      by simp
    then show ?thesis
    proof (cases rule: traced_fstE)
      case 1
      then show ?thesis by (rule rx_drain_trace_inv [OF Suc.prems(1)])
    next
      case (2 x)
      from 2(1) have r: "rx_drain cfg fuel 0 (s, d) = Some (Inr x)"
        by (simp add: rx_drain_trace_result)
      obtain count s1 d1 where x: "x = (count, s1, d1)" by (cases x)
      have inv1: "cdc_inv cfg owed s1"
        using holdsD [OF rx_drain_inv [OF Suc.prems(1)] r] x by simp
      from 2(2) show ?thesis
        using rx_drain_trace_inv [OF Suc.prems(1)] Suc.IH [OF inv1]
        by (auto simp: x)
    qed
  qed
qed

lemma EventCallback_trace_inv:
  assumes "cdc_inv cfg owed s" "s' \<in> set (fst (EventCallback_trace cfg fuel events (s, d)))"
  shows "cdc_inv cfg owed s'"
  using assms(2) unfolding EventCallback_trace_def
proof (cases rule: traced_fstE)
  case 1
  then show ?thesis using rx_event_trace_inv [OF assms(1)] by (auto split: if_splits)
next
  case (2 x)
  obtain s1 d1 where x: "x = (s1, d1)" by (cases x)
  have "holds (if events AND USBD_CDC_EVENT_RECEIVE cfg \<noteq> 0 then rx_event cfg fuel (s, d)
            else Some (Inr (s, d))) (\<lambda>(s', d'). cdc_inv cfg owed s')"
    using rx_event_inv [OF assms(1)] assms(1) by simp
  moreover have "(if events AND USBD_CDC_EVENT_RECEIVE cfg \<noteq> 0 then rx_event cfg fuel (s, d)
            else Some (Inr (s, d))) = Some (Inr x)"
    using 2(1) by (simp add: rx_event_trace_result split: if_splits)
  ultimately have inv1: "cdc_inv cfg owed s1" using x by (auto dest: holdsD)
  from 2(2) show ?thesis
    using inv1 tx_event_inv [OF inv1] rx_event_trace_inv [OF assms(1)]
    by (auto simp: x split: sum.splits if_splits)
qed

lemma usbd_irq_trace_inv:
  "cdc_inv cfg owed s \<Longrightarrow> s' \<in> set (fst (usbd_irq_trace cfg fuel events (s, d))) \<Longrightarrow>
   cdc_inv cfg owed s'"
  by (simp add: usbd_irq_trace_def EventCallback_trace_inv)

lemma armv7m_core_yield_trace_inv:
  "cdc_inv cfg owed s \<Longrightarrow> s' \<in> set (fst (armv7m_core_yield_trace cfg fuel (s, d))) \<Longrightarrow>
   cdc_inv cfg owed s'"
  by (auto simp: armv7m_core_yield_trace_def Let_def split: list.splits
      dest: usbd_irq_trace_inv)

lemma tx_wait_trace_inv:
  "cdc_inv cfg owed s \<Longrightarrow> s' \<in> set (fst (tx_wait_trace cfg fuel (s, d))) \<Longrightarrow>
   cdc_inv cfg owed s'"
proof (induction fuel arbitrary: s d)
  case 0
  then show ?case by simp
next
  case (Suc fuel)
  show ?case
  proof (cases "CDC_TX_BUFFER_SIZE cfg = tx_count s")
    case False
    with Suc.prems show ?thesis by simp
  next
    case True
    with Suc.prems(2) have "s' \<in> set (fst (case armv7m_core_yield_trace cfg fuel (s, d) of
           (tr, None) \<Rightarrow> (tr, None)
         | (tr, Some (Inl e)) \<Rightarrow> (tr, Some (Inl e))
         | (tr, Some (Inr sd')) \<Rightarrow> logged tr (tx_wait_trace cfg fuel sd')))"
      by simp
    then show ?thesis
    proof (cases rule: traced_fstE)
      case 1
      then show ?thesis by (rule armv7m_core_yield_trace_inv [OF Suc.prems(1)])
    next
      case (2 x)
      from 2(1) have r: "armv7m_core_yield cfg fuel (s, d) = Some (Inr x)"
        by (simp add: armv7m_core_yield_trace_result)
      obtain s1 d1 where x: "x = (s1, d1)" by (cases x)
      have inv1: "cdc_inv cfg owed s1"
        using holdsD [OF armv7m_core_yield_inv [OF Suc.prems(1)] r] x by simp
      from 2(2) show ?thesis
        using armv7m_core_yield_trace_inv [OF Suc.prems(1)] Suc.IH [OF inv1]
        by (auto simp: x)
    qed
  qed
qed

lemma tx_make_room_trace_inv:
  assumes "cdc_inv cfg owed s" "s' \<in> set (fst (tx_make_room_trace cfg fuel (s, d)))"
  shows "cdc_inv cfg owed s'"
  using assms tx_start_inv [OF assms(1)]
  by (auto simp: tx_make_room_trace_def split: sum.splits if_splits dest: tx_wait_trace_inv)

lemma inv_withinI: "cdc_inv cfg owed s \<Longrightarrow> owed \<le> m \<Longrightarrow> inv_within cfg m s"
  by (auto simp: inv_within_def)

lemma inv_within_mono: "inv_within cfg m s \<Longrightarrow> m \<le> m' \<Longrightarrow> inv_within cfg m' s"
  unfolding inv_within_def using order_trans by blast

lemma owed_le:
  fixes sz count :: u32
  shows "count \<le> sz \<Longrightarrow> sz - count \<le> sz"
  by unat_arith

lemma write_loop_trace_inv:
  "cdc_inv cfg (sz - count) s \<Longrightarrow> count \<le> sz \<Longrightarrow>
   s' \<in> set (fst (write_loop_trace cfg fuel buffer sz count (s, d))) \<Longrightarrow>
   inv_within cfg sz s'"
proof (induction fuel arbitrary: count s d)
  case 0
  then show ?case by simp
next
  case (Suc fuel)
  show ?case
  proof (cases "count < sz")
    case False
    with Suc.prems show ?thesis by simp
  next
    case True
    with Suc.prems(3) have "s' \<in> set (fst (case tx_make_room_trace cfg fuel (s, d) of
           (tr, None) \<Rightarrow> (tr, None)
         | (tr, Some (Inl e)) \<Rightarrow> (tr, Some (Inl e))
         | (tr, Some (Inr (s1, d1))) \<Rightarrow>
             logged tr
               (case tx_queue cfg buffer sz count s1 of
                  Inl e \<Rightarrow> ([], Some (Inl e))
                | Inr (count', s2) \<Rightarrow>
                    logged [s2] (write_loop_trace cfg fuel buffer sz count' (s2, d1)))))"
      by simp
    then show ?thesis
    proof (cases rule: traced_fstE)
      case 1
      then have "cdc_inv cfg (sz - count) s'" by (rule tx_make_room_trace_inv [OF Suc.prems(1)])
      then show ?thesis by (rule inv_withinI) (rule owed_le [OF Suc.prems(2)])
    next
      case (2 x)
      from 2(1) have r: "tx_make_room cfg fuel (s, d) = Some (Inr x)"
        by (simp add: tx_make_room_trace_result)
      obtain s1 d1 where x: "x = (s1, d1)" by (cases x)
      have inv1: "cdc_inv cfg (sz - count) s1"
        using holdsD [OF tx_make_room_inv [OF Suc.prems(1)] r] x by simp
      from 2(2) consider
          (room) "s' \<in> set (fst (tx_make_room_trace cfg fuel (s, d)))"
        | (queue) count' s2 where "tx_queue cfg buffer sz count s1 = Inr (count', s2)"
            "s' = s2 \<or> s' \<in> set (fst (write_loop_trace cfg fuel buffer sz count' (s2, d1)))"
        by (auto simp: x split: sum.splits)
      then show ?thesis
      proof cases
        case room
        then have "cdc_inv cfg (sz - count) s'"
          by (rule tx_make_room_trace_inv [OF Suc.prems(1)])
        then show ?thesis by (rule inv_withinI) (rule owed_le [OF Suc.prems(2)])
      next
        case queue
        note q = tx_queue_inv [OF inv1 Suc.prems(2) queue(1)]
        from queue(2) show ?thesis
        proof
          assume "s' = s2"
          with q show ?thesis by (auto intro: inv_withinI owed_le)
        next
          assume "s' \<in> set (fst (write_loop_trace cfg fuel buffer sz count' (s2, d1)))"
          with q show ?thesis by (auto intro: Suc.IH)
        qed
      qed
    qed
  qed
qed

lemma write_bulk_trace_inv:
  assumes "cdc_inv cfg 0 s" "s' \<in> set (fst (write_bulk_trace cfg fuel ipsr buffer sz (s, d)))"
  shows "inv_within cfg sz s'"
proof (cases "state d < USBD_CDC_STATE_READY cfg \<or> lineState d AND 2 = 0")
  case True
  with assms(2) show ?thesis by (simp add: write_bulk_trace_def)
next
  case False
  define sz1 where "sz1 = (if \<not> blocking s \<or> ipsr \<noteq> 0
                   then (if sz > CDC_TX_BUFFER_SIZE cfg - tx_count s
                         then CDC_TX_BUFFER_SIZE cfg - tx_count s else sz)
                   else sz)"
  define s0 where "s0 = s\<lparr>tx_total := tx_total s + sz1\<rparr>"
  have le: "sz1 \<le> sz" by (auto simp: sz1_def)
  have start: "cdc_inv cfg (sz1 - 0) s0" using assms(1) by (simp add: cdc_inv_def s0_def)
  have "s' \<in> set (fst (logged [s0]
             (case write_loop_trace cfg fuel buffer sz1 0 (s0, d) of
                (tr, None) \<Rightarrow> (tr, None)
              | (tr, Some (Inl e)) \<Rightarrow> (tr, Some (Inl e))
              | (tr, Some (Inr (count, s1, d1))) \<Rightarrow>
                  logged tr
                    (if ipsr = 0 \<and> stm32l4_usbd_cdc_done d1 \<and> tx_count s1 \<noteq> 0
                     then (case tx_start cfg (s1, d1) of
                             Inl e \<Rightarrow> ([], Some (Inl e))
                           | Inr (s2, d2) \<Rightarrow> ([s2], Some (Inr (count, s2, d2))))
                     else ([], Some (Inr (count, s1, d1)))))))"
    using assms(2) False
    unfolding write_bulk_trace_def Let_def fst_conv snd_conv sz1_def [symmetric] s0_def [symmetric]
    by (simp only: if_False)
  then consider (entry) "s' = s0"
    | (rest) "s' \<in> set (fst (case write_loop_trace cfg fuel buffer sz1 0 (s0, d) of
                (tr, None) \<Rightarrow> (tr, None)
              | (tr, Some (Inl e)) \<Rightarrow> (tr, Some (Inl e))
              | (tr, Some (Inr (count, s1, d1))) \<Rightarrow>
                  logged tr
                    (if ipsr = 0 \<and> stm32l4_usbd_cdc_done d1 \<and> tx_count s1 \<noteq> 0
                     then (case tx_start cfg (s1, d1) of
                             Inl e \<Rightarrow> ([], Some (Inl e))
                           | Inr (s2, d2) \<Rightarrow> ([s2], Some (Inr (count, s2, d2))))
                     else ([], Some (Inr (count, s1, d1))))))"
    by auto
  then show ?thesis
  proof cases
    case entry
    with start le show ?thesis by (auto intro: inv_withinI)
  next
    case rest
    then show ?thesis
    proof (cases rule: traced_fstE)
      case 1
      then have "inv_within cfg sz1 s'" by (intro write_loop_trace_inv [OF start]) simp_all
      then show ?thesis using le by (rule inv_within_mono)
    next
      case (2 x)
      from 2(1) have r: "write_loop cfg fuel buffer sz1 0 (s0, d) = Some (Inr x)"
        by (simp add: write_loop_trace_result)
      obtain count s1 d1 where x: "x = (count, s1, d1)" by (cases x)
      have inv1: "cdc_inv cfg 0 s1"
        using holdsD [OF write_loop_inv [OF start] r] x by simp
      from 2(2) consider
          (loop) "s' \<in> set (fst (write_loop_trace cfg fuel buffer sz1 0 (s0, d)))"
        | (kick) s2 d2 where "tx_start cfg (s1, d1) = Inr (s2, d2)" "s' = s2"
        by (auto simp: x split: sum.splits if_splits)
      then show ?thesis
      proof cases
        case loop
        then have "inv_within cfg sz1 s'" by (intro write_loop_trace_inv [OF start]) simp_all
        then show ?thesis using le by (rule inv_within_mono)
      next
        case kick
        have "cdc_inv cfg 0 s2" using inv1 kick(1) by (rule tx_start_inv)
        then show ?thesis using kick(2) by (auto intro: inv_withinI)
      qed
    qed
  qed
qed

lemma read_loop_trace_inv:
  "cdc_inv cfg owed s \<Longrightarrow> s' \<in> set (fst (read_loop_trace cfg fuel sz buffer count s)) \<Longrightarrow>
   cdc_inv cfg owed s'"
proof (induction fuel arbitrary: buffer count s)
  case 0
  then show ?case by simp
next
  case (Suc fuel)
  show ?case
    using Suc.prems Suc.IH read_chunk_inv [OF Suc.prems(1)]
    by (fastforce split: sum.splits if_splits)
qed

lemma step_trace_inv:
  assumes "cdc_inv cfg 0 s" "s' \<in> set (fst (step_trace cfg fuel x (s, d)))"
  shows "inv_within cfg (write_size x) s'"
proof (cases x)
  case (Write ipsr buffer sz)
  have "s' \<in> set (fst (write_bulk_trace cfg fuel ipsr buffer sz (s, d)))"
    using assms(2) by (auto simp: Write split: prod.splits option.splits sum.splits)
  from write_bulk_trace_inv [OF assms(1) this] show ?thesis by (simp add: Write)
next
  case (WriteByte ipsr data)
  have "s' \<in> set (fst (write_bulk_trace cfg fuel ipsr [data] 1 (s, d)))"
    using assms(2)
    by (auto simp: WriteByte write_byte_trace_def split: prod.splits option.splits sum.splits)
  from write_bulk_trace_inv [OF assms(1) this] show ?thesis by (simp add: WriteByte)
next
  case (Read buffer sz)
  have "s' \<in> set (fst (read_loop_trace cfg fuel sz buffer 0 s))"
    using assms(2)
    by (auto simp: Read read_bulk_trace_def split: prod.splits option.splits sum.splits)
  from read_loop_trace_inv [OF assms(1) this] show ?thesis by (auto intro: inv_withinI)
next
  case ReadByte
  from assms(2) obtain v where "read_byte cfg s = Inr (v, s')"
    by (auto simp: ReadByte split: sum.splits)
  from read_byte_inv [OF assms(1) this] show ?thesis by (auto intro: inv_withinI)
next
  case (Event events)
  have "s' \<in> set (fst (EventCallback_trace cfg fuel events (s, d)))"
    using assms(2) by (simp add: Event)
  from EventCallback_trace_inv [OF assms(1) this] show ?thesis by (auto intro: inv_withinI)
next
  case (BlockOnOverrun b)
  show ?thesis
    using assms by (auto simp: BlockOnOverrun blockOnOverrun_def cdc_inv_def inv_within_def)
next
  case (OnReceive b)
  show ?thesis using assms by (auto simp: OnReceive onReceive_def cdc_inv_def inv_within_def)
next
  case (OnTransmit b)
  show ?thesis using assms by (auto simp: OnTransmit onTransmit_def cdc_inv_def inv_within_def)
next
  case (Outside d')
  show ?thesis using assms by (simp add: Outside)
qed

lemma run_trace_inv:
  "cdc_inv cfg 0 s \<Longrightarrow> \<forall>x\<in>set xs. write_size x \<le> m \<Longrightarrow>
   s' \<in> set (fst (run_trace cfg fuel xs (s, d))) \<Longrightarrow> inv_within cfg m s'"
proof (induction xs arbitrary: s d)
  case Nil
  then show ?case by (auto intro: inv_withinI)
next
  case (Cons x xs)
  from Cons.prems(3) consider (before) "s' = s"
    | (rest) "s' \<in> set (fst (case step_trace cfg fuel x (s, d) of
          (tr, None) \<Rightarrow> (tr, None)
        | (tr, Some (Inl e)) \<Rightarrow> (tr, Some (Inl e))
        | (tr, Some (Inr sd')) \<Rightarrow> logged tr (run_trace cfg fuel xs sd')))"
    by auto
  then show ?case
  proof cases
    case before
    with Cons.prems(1) show ?thesis by (auto intro: inv_withinI)
  next
    case rest
    have le: "write_size x \<le> m" using Cons.prems(2) by simp
    from rest show ?thesis
    proof (cases rule: traced_fstE)
      case 1
      from step_trace_inv [OF Cons.prems(1) this] le show ?thesis by (rule inv_within_mono)
    next
      case (2 y)
      from 2(1) have r: "step cfg fuel x (s, d) = Some (Inr y)"
        by (simp add: step_trace_result)
      obtain s1 d1 where y: "y = (s1, d1)" by (cases y)
      have inv1: "cdc_inv cfg 0 s1"
        using holdsD [OF step_inv [OF Cons.prems(1)] r] y by simp
      from 2(2) have "s' \<in> set (fst (step_trace cfg fuel x (s, d))) \<or>
          s' \<in> set (fst (run_trace cfg fuel xs (s1, d1)))"
        by (auto simp: y)
      then show ?thesis
      proof
        assume "s' \<in> set (fst (step_trace cfg fuel x (s, d)))"
        from step_trace_inv [OF Cons.prems(1) this] le show ?thesis by (rule inv_within_mono)
      next
        assume "s' \<in> set (fst (run_trace cfg fuel xs (s1, d1)))"
        with inv1 Cons.prems(2) show ?thesis by (intro Cons.IH) simp_all
      qed
    qed
  qed
qed

lemma run_trace_final:
  "run cfg fuel xs (s, d) = Some (Inr (s', d')) \<Longrightarrow> s' \<in> set (fst (run_trace cfg fuel xs (s, d)))"
proof (induction xs arbitrary: s d)
  case Nil
  then show ?case by simp
next
  case (Cons x xs)
  from Cons.prems obtain s1 d1 where st: "step cfg fuel x (s, d) = Some (Inr (s1, d1))"
    and rest: "run cfg fuel xs (s1, d1) = Some (Inr (s', d'))"
    by (auto split: option.splits sum.splits)
  have "snd (step_trace cfg fuel x (s, d)) = Some (Inr (s1, d1))"
    using st by (simp add: step_trace_result)
  then show ?case
    using Cons.IH [OF rest]
    by (auto split: prod.splits option.splits sum.splits)
qed

lemma inv_within_counts:
  "inv_within cfg m s \<Longrightarrow>
   rx_count s \<le> CDC_RX_BUFFER_SIZE cfg \<and> tx_count s \<le> CDC_TX_BUFFER_SIZE cfg"
  by (auto simp: inv_within_def cdc_inv_def)

lemma no_wrap_le:
  fixes cnt owed cap m :: u32
  assumes "cnt \<le> cap" "owed \<le> m" "unat m + unat cap < 2 ^ 32"
  shows "cnt \<le> cnt + owed" "cnt + owed = 0 \<Longrightarrow> cnt = 0"
proof -
  have "unat cnt + unat owed < 2 ^ 32"
    using assms by (simp add: word_le_nat_alt)
  then have u: "unat (cnt + owed) = unat cnt + unat owed"
    by (simp add: unat_add_lem [THEN iffD1])
  then show "cnt \<le> cnt + owed" by (simp add: word_le_nat_alt)
  show "cnt = 0" if "cnt + owed = 0"
    using u that by (simp add: unat_eq_0 [symmetric] del: unat_eq_0)
qed

lemma inv_within_acct:
  assumes "inv_within cfg m s" "unat m + unat (CDC_TX_BUFFER_SIZE cfg) < 2 ^ 32"
  shows "tx_size s \<le> tx_count s \<and> tx_count s \<le> tx_total s \<and>
         (tx_total s = 0 \<longrightarrow> tx_count s = 0 \<and> tx_size s = 0)"
proof -
  from assms(1) obtain owed where o: "owed \<le> m" and inv: "cdc_inv cfg owed s"
    by (auto simp: inv_within_def)
  have c: "tx_count s \<le> CDC_TX_BUFFER_SIZE cfg" and sz: "tx_size s \<le> tx_count s"
    and t: "tx_total s = tx_count s + owed"
    using inv by (simp_all add: cdc_inv_def)
  note nw = no_wrap_le [OF c o assms(2)]
  have "tx_count s \<le> tx_total s" using nw(1) t by simp
  moreover have "tx_count s = 0" if "tx_total s = 0" using nw(2) t that by simp
  ultimately show ?thesis using sz by auto
qed

lemma sizes_fit:
  fixes ws cap :: u32
  shows "unat (- 1 - cap) + unat cap < 2 ^ 32"
    and "unat ws + unat cap < 2 ^ 32 \<Longrightarrow> ws \<le> - 1 - cap"
proof -
  have "cap \<le> - 1" by simp
  then have u: "unat (- 1 - cap) = unat (- 1 :: u32) - unat cap" by (rule unat_sub)
  have m: "unat (- 1 :: u32) = 2 ^ 32 - 1"
    by (simp add: unsigned_minus_1_eq_mask mask_eq_exp_minus_1)
  have c: "unat cap \<le> 2 ^ 32 - 1" using unsigned_less [of cap, where 'a = nat] by simp
  show "unat (- 1 - cap) + unat cap < 2 ^ 32" using u m c by simp
  show "ws \<le> - 1 - cap" if "unat ws + unat cap < 2 ^ 32"
    using that u m c by (simp add: word_le_nat_alt)
qed

lemma receive_3_eval:
  "snd (run_trace cfg64 4 receive_3_ops (CDC_init cfg64, dev_ready)) = None"
  "map rx_count (fst (run_trace cfg64 4 receive_3_ops (CDC_init cfg64, dev_ready)))
     = [0, 0, 3, 3, 3, 3]"
  by code_simp+

lemma write_100_eval:
  "map (\<lambda>s. (unat (tx_size s), unat (tx_count s), unat (tx_total s)))
     (fst (run_trace cfg64 5 write_100_ops (CDC_init cfg64, dev_ready\<lparr>irq_queue := [2, 2]\<rparr>)))
   = [(0, 0, 0), (0, 0, 100), (0, 64, 100), (63, 64, 100), (1, 1, 37), (1, 37, 37), (1, 37, 37)]"
  by code_simp

text \<open>
  C1: in every sequence of operations (bulk and single writes from thread mode or from an
  interrupt handler, bulk and single reads, event callbacks, with the outside world
  changing the device in between) that starts from the constructed object, every state
  that the object passes through has both occupancy counters between 0 and the capacity
  of their buffer. This covers the states between two operations, the states inside a
  receive event (after every pass of its loop, whether or not the event ever returns),
  the states that the interrupt handler leaves while \<open>write\<close> yields, and the states
  after every chunk that \<open>write\<close> or \<open>read\<close> has copied.
\<close>

theorem count_within_capacity:
  "\<forall>s\<in>set (fst (run_trace cfg fuel ops (CDC_init cfg, d0))).
     0 \<le> unat (rx_count s) \<and> rx_count s \<le> CDC_RX_BUFFER_SIZE cfg \<and>
     0 \<le> unat (tx_count s) \<and> tx_count s \<le> CDC_TX_BUFFER_SIZE cfg"
proof
  fix s
  assume tr: "s \<in> set (fst (run_trace cfg fuel ops (CDC_init cfg, d0)))"
  have "inv_within cfg (- 1) s"
    by (rule run_trace_inv [OF CDC_init_inv _ tr]) simp
  then show "0 \<le> unat (rx_count s) \<and> rx_count s \<le> CDC_RX_BUFFER_SIZE cfg \<and>
     0 \<le> unat (tx_count s) \<and> tx_count s \<le> CDC_TX_BUFFER_SIZE cfg"
    using inv_within_counts by simp
qed

theorem count_within_capacity_witness:
  "snd (run_trace cfg64 4 receive_3_ops (CDC_init cfg64, dev_ready)) = None \<and>
   map rx_count (fst (run_trace cfg64 4 receive_3_ops (CDC_init cfg64, dev_ready)))
     = [0, 0, 3, 3, 3, 3] \<and>
   list_all (\<lambda>s. rx_count s \<le> CDC_RX_BUFFER_SIZE cfg64 \<and> tx_count s \<le> CDC_TX_BUFFER_SIZE cfg64)
     (fst (run_trace cfg64 4 receive_3_ops (CDC_init cfg64, dev_ready)))"
  using count_within_capacity [of cfg64 4 receive_3_ops dev_ready] receive_3_eval
  by (simp add: list_all_iff)

text \<open>
  C10: in every state that the object passes through in a sequence of operations from the
  constructed object, \<open>_tx_size \<le> _tx_count \<le> _tx_total\<close>, and so \<open>_tx_total == 0\<close>,
  the condition of the all-sent notification, implies that the transmit buffer is empty
  and no packet is in flight. The states include the one after \<open>write\<close> has added to
  \<open>_tx_total\<close> and before it has queued anything, and the one in which the interrupt
  handler evaluates \<open>_tx_total == 0\<close> while a blocking \<open>write\<close> yields; there the
  second inequality is strict. No call asks for \<open>2^32 - CDC_TX_BUFFER_SIZE\<close> bytes or
  more (a buffer of that size does not exist beside the object in a 32-bit address
  space), so that the addition to \<open>_tx_total\<close> does not wrap.
\<close>

theorem tx_accounting:
  assumes "\<forall>x\<in>set ops. unat (write_size x) + unat (CDC_TX_BUFFER_SIZE cfg) < 2 ^ 32"
  shows "\<forall>s\<in>set (fst (run_trace cfg fuel ops (CDC_init cfg, d0))).
     tx_size s \<le> tx_count s \<and> tx_count s \<le> tx_total s \<and>
     (tx_total s = 0 \<longrightarrow> tx_count s = 0 \<and> tx_size s = 0)"
proof
  fix s
  assume tr: "s \<in> set (fst (run_trace cfg fuel ops (CDC_init cfg, d0)))"
  have "\<forall>x\<in>set ops. write_size x \<le> - 1 - CDC_TX_BUFFER_SIZE cfg"
    using assms sizes_fit(2) by blast
  with CDC_init_inv have "inv_within cfg (- 1 - CDC_TX_BUFFER_SIZE cfg) s"
    using tr by (rule run_trace_inv)
  then show "tx_size s \<le> tx_count s \<and> tx_count s \<le> tx_total s \<and>
     (tx_total s = 0 \<longrightarrow> tx_count s = 0 \<and> tx_size s = 0)"
    by (rule inv_within_acct) (rule sizes_fit(1))
qed

theorem tx_accounting_witness:
  "list_all (\<lambda>x. unat (write_size x) + unat (CDC_TX_BUFFER_SIZE cfg64) < 2 ^ 32) write_100_ops \<and>
   map (\<lambda>s. (unat (tx_size s), unat (tx_count s), unat (tx_total s)))
     (fst (run_trace cfg64 5 write_100_ops (CDC_init cfg64, dev_ready\<lparr>irq_queue := [2, 2]\<rparr>)))
   = [(0, 0, 0), (0, 0, 100), (0, 64, 100), (63, 64, 100), (1, 1, 37), (1, 37, 37), (1, 37, 37)] \<and>
   list_all (\<lambda>s. tx_size s \<le> tx_count s \<and> tx_count s \<le> tx_total s \<and>
                (tx_total s = 0 \<longrightarrow> tx_count s = 0 \<and> tx_size s = 0))
     (fst (run_trace cfg64 5 write_100_ops (CDC_init cfg64, dev_ready\<lparr>irq_queue := [2, 2]\<rparr>)))"
proof -
  have fit: "\<forall>x\<in>set write_100_ops.
      unat (write_size x) + unat (CDC_TX_BUFFER_SIZE cfg64) < 2 ^ 32"
    by (simp add: write_100_ops_def cfg64_def)
  from tx_accounting [OF fit, of 5 "dev_ready\<lparr>irq_queue := [2, 2]\<rparr>"] fit write_100_eval
  show ?thesis by (simp add: list_all_iff)
qed

section \<open>Writing without blocking\<close>

lemma is_pow2D: "is_pow2 w \<Longrightarrow> \<exists>k<32. w = 2 ^ k"
  by (auto simp: is_pow2_def)

lemma unat_pow2:
  assumes "k < 32"
  shows "unat (2 ^ k :: u32) = 2 ^ k"
proof -
  have "(2 ^ k :: u32) = word_of_nat (2 ^ k)" by simp
  then have "unat (2 ^ k :: u32) = 2 ^ k mod 2 ^ 32"
    by (simp only: unat_of_nat) simp
  moreover have "(2::nat) ^ k < 2 ^ 32" using assms by (intro power_strict_increasing) simp_all
  ultimately show ?thesis by (simp only: mod_less)
qed

lemma unat_and_pow2_minus_1:
  fixes x :: u32
  assumes "k < 32"
  shows "unat (x AND (2 ^ k - 1)) = unat x mod 2 ^ k"
proof -
  have "x AND (2 ^ k - 1) = take_bit k x"
    by (simp only: take_bit_eq_mask mask_eq_decr_exp)
  then have "unat (x AND (2 ^ k - 1)) = take_bit k (unat x)"
    by (simp only: unsigned_take_bit_eq)
  then show ?thesis by (simp only: take_bit_eq_mod)
qed

lemma ring_wrap:
  fixes x cap :: u32
  assumes "is_pow2 cap"
  shows "unat (x AND (cap - 1)) = unat x mod unat cap"
proof -
  from is_pow2D [OF assms] obtain k where k: "k < 32" "cap = 2 ^ k" by blast
  show ?thesis by (simp only: k(2) unat_and_pow2_minus_1 [OF k(1)] unat_pow2 [OF k(1)])
qed

lemma ring_advance:
  fixes x y cap :: u32
  assumes "is_pow2 cap" "unat x + unat y \<le> unat cap"
  shows "unat ((x + y) AND (cap - 1)) = (unat x + unat y) mod unat cap"
proof -
  have "unat x + unat y < 2 ^ 32"
    using assms(2) unsigned_less [of cap, where 'a = nat] by simp
  then have "unat (x + y) = unat x + unat y" using unat_add_lem [of x y] by simp
  then show ?thesis by (simp only: ring_wrap [OF assms(1)])
qed

lemma span_unat:
  fixes cap cnt wr rest :: u32
  assumes "cnt \<le> cap" "wr \<le> cap"
  shows "unat (if (if cap - cnt > cap - wr then cap - wr else cap - cnt) > rest then rest
               else (if cap - cnt > cap - wr then cap - wr else cap - cnt))
         = min (min (unat cap - unat cnt) (unat cap - unat wr)) (unat rest)"
  using assms by (auto simp: word_less_nat_alt word_le_nat_alt unat_sub)

lemma mem_read_Some:
  "off + n \<le> length src \<Longrightarrow> \<exists>bytes. mem_read src off n = Some bytes \<and> length bytes = n"
  by (simp add: mem_read_def)

lemma mem_write_Some:
  "off + length bytes \<le> length dst \<Longrightarrow>
   \<exists>dst'. mem_write dst off bytes = Some dst' \<and> length dst' = length dst"
  by (simp add: mem_write_def)

lemma unat_add_small:
  fixes x y cap :: u32
  assumes "unat x + unat y \<le> unat cap"
  shows "unat (x + y) = unat x + unat y"
proof -
  have "unat x + unat y < 2 ^ 32"
    using assms unsigned_less [of cap, where 'a = nat] by simp
  then show ?thesis using unat_add_lem [of x y] by simp
qed

lemma tx_queue_fits:
  assumes pow: "is_pow2 (CDC_TX_BUFFER_SIZE cfg)"
    and ring: "tx_ring_ok cfg s"
    and le: "count \<le> sz"
    and fit: "unat sz - unat count \<le> unat (CDC_TX_BUFFER_SIZE cfg) - unat (tx_count s)"
    and buf: "unat sz \<le> length buffer"
  shows "\<exists>cnt data' wr'.
     tx_queue cfg buffer sz count s =
       Inr (count + cnt, s\<lparr>tx_data := data', tx_write := wr', tx_count := tx_count s + cnt\<rparr>) \<and>
     unat cnt = min (unat (CDC_TX_BUFFER_SIZE cfg) - unat (tx_write s)) (unat sz - unat count) \<and>
     unat (count + cnt) = unat count + unat cnt \<and>
     unat (tx_count s + cnt) = unat (tx_count s) + unat cnt \<and>
     length data' = length (tx_data s) \<and>
     unat wr' = (unat (tx_write s) + unat cnt) mod unat (CDC_TX_BUFFER_SIZE cfg)"
proof -
  let ?cap = "CDC_TX_BUFFER_SIZE cfg"
  let ?c1 = "(if ?cap - tx_count s > ?cap - tx_write s then ?cap - tx_write s
              else ?cap - tx_count s)"
  let ?cnt = "(if ?c1 > sz - count then sz - count else ?c1)"
  have c: "tx_count s \<le> ?cap" and w: "tx_write s \<le> ?cap" and len: "length (tx_data s) = unat ?cap"
    using ring by (auto simp: tx_ring_ok_def)
  have cN: "unat (tx_count s) \<le> unat ?cap" and wN: "unat (tx_write s) \<le> unat ?cap"
    and kn: "unat count \<le> unat sz"
    using c w le by (simp_all add: word_le_nat_alt)
  have rest: "unat (sz - count) = unat sz - unat count" using le by (rule unat_sub)
  have "unat ?cnt = min (min (unat ?cap - unat (tx_count s)) (unat ?cap - unat (tx_write s)))
                        (unat (sz - count))"
    by (rule span_unat [OF c w])
  with fit rest have cnt: "unat ?cnt = min (unat ?cap - unat (tx_write s)) (unat sz - unat count)"
    by (simp add: min_def)
  have k': "unat (count + ?cnt) = unat count + unat ?cnt"
    using cnt kn by (intro unat_add_small [where cap = sz]) simp
  have c': "unat (tx_count s + ?cnt) = unat (tx_count s) + unat ?cnt"
    using cnt fit cN by (intro unat_add_small [where cap = ?cap]) simp
  have "unat count + unat ?cnt \<le> length buffer" using cnt kn buf by simp
  from mem_read_Some [OF this] obtain bytes
    where rd: "mem_read buffer (unat count) (unat ?cnt) = Some bytes" and bl: "length bytes = unat ?cnt"
    by blast
  have inN: "unat (tx_write s) + unat ?cnt \<le> unat ?cap" using cnt wN by simp
  then have "unat (tx_write s) + length bytes \<le> length (tx_data s)" using bl len by simp
  from mem_write_Some [OF this] obtain data'
    where wr: "mem_write (tx_data s) (unat (tx_write s)) bytes = Some data'"
      and dl: "length data' = length (tx_data s)"
    by blast
  have q: "tx_queue cfg buffer sz count s =
      Inr (count + ?cnt, s\<lparr>tx_data := data', tx_write := (tx_write s + ?cnt) AND (?cap - 1),
                           tx_count := tx_count s + ?cnt\<rparr>)"
    using rd wr by (simp add: tx_queue_def Let_def split del: if_split)
  have w': "unat ((tx_write s + ?cnt) AND (?cap - 1)) = (unat (tx_write s) + unat ?cnt) mod unat ?cap"
    by (rule ring_advance [OF pow inN])
  from q cnt k' c' dl w' show ?thesis by blast
qed

lemma tx_make_room_free:
  "CDC_TX_BUFFER_SIZE cfg - tx_count s \<noteq> 0 \<Longrightarrow> tx_make_room cfg fuel (s, d) = Some (Inr (s, d))"
  by (simp add: tx_make_room_def)

lemma write_loop_last:
  assumes pow: "is_pow2 (CDC_TX_BUFFER_SIZE cfg)"
    and ring: "tx_ring_ok cfg s"
    and le: "count \<le> sz"
    and fit: "unat sz - unat count \<le> unat (CDC_TX_BUFFER_SIZE cfg) - unat (tx_count s)"
    and span: "unat sz - unat count \<le> unat (CDC_TX_BUFFER_SIZE cfg) - unat (tx_write s)"
    and buf: "unat sz \<le> length buffer"
    and fuel: "2 \<le> fuel"
  shows "\<exists>D W. write_loop cfg fuel buffer sz count (s, d) =
           Some (Inr (sz, s\<lparr>tx_data := D, tx_write := W, tx_count := tx_count s + (sz - count)\<rparr>, d)) \<and>
         length D = unat (CDC_TX_BUFFER_SIZE cfg) \<and> W < CDC_TX_BUFFER_SIZE cfg"
proof -
  let ?cap = "CDC_TX_BUFFER_SIZE cfg"
  from fuel obtain f where f: "fuel = Suc (Suc f)"
    by (metis Suc_le_D numeral_2_eq_2 Suc_le_mono)
  have len: "length (tx_data s) = unat ?cap" and w: "tx_write s < ?cap"
    using ring by (auto simp: tx_ring_ok_def)
  show ?thesis
  proof (cases "count < sz")
    case False
    with le have eq: "count = sz" by simp
    have "write_loop cfg fuel buffer sz count (s, d) =
        Some (Inr (sz, s\<lparr>tx_data := tx_data s, tx_write := tx_write s,
                          tx_count := tx_count s + (sz - count)\<rparr>, d))"
      by (simp add: f eq)
    with len w show ?thesis by blast
  next
    case True
    then have kn: "unat count < unat sz" by (simp add: word_less_nat_alt)
    from tx_queue_fits [OF pow ring le fit buf] obtain cnt D W where
      q: "tx_queue cfg buffer sz count s =
            Inr (count + cnt, s\<lparr>tx_data := D, tx_write := W, tx_count := tx_count s + cnt\<rparr>)"
      and cnt: "unat cnt = min (unat ?cap - unat (tx_write s)) (unat sz - unat count)"
      and k': "unat (count + cnt) = unat count + unat cnt"
      and dl: "length D = length (tx_data s)"
      and w': "unat W = (unat (tx_write s) + unat cnt) mod unat ?cap"
      by blast
    from cnt span have cnt_eq: "unat cnt = unat sz - unat count" by simp
    with k' kn have "unat (count + cnt) = unat sz" by simp
    then have fin: "count + cnt = sz" by (simp add: word_unat_eq_iff)
    then have cnt_w: "cnt = sz - count" by (simp add: algebra_simps)
    have "unat ?cap - unat (tx_count s) \<noteq> 0" using fit kn by simp
    then have "?cap - tx_count s \<noteq> 0"
      by (metis unat_0 unat_sub_if' diff_is_0_eq' less_imp_le_nat linorder_not_le)
    then have room: "tx_make_room cfg (Suc f) (s, d) = Some (Inr (s, d))"
      by (rule tx_make_room_free)
    have "write_loop cfg fuel buffer sz count (s, d) =
        Some (Inr (sz, s\<lparr>tx_data := D, tx_write := W, tx_count := tx_count s + (sz - count)\<rparr>, d))"
      using True room q fin cnt_w by (simp add: f)
    moreover have "0 < unat ?cap" using w by (simp add: word_less_nat_alt)
    then have "unat W < unat ?cap" using w' by simp
    then have "W < ?cap" by (simp add: word_less_nat_alt)
    ultimately show ?thesis using dl len by auto
  qed
qed

lemma write_loop_fits:
  assumes pow: "is_pow2 (CDC_TX_BUFFER_SIZE cfg)"
    and ring: "tx_ring_ok cfg s"
    and le: "count \<le> sz"
    and fit: "unat sz - unat count \<le> unat (CDC_TX_BUFFER_SIZE cfg) - unat (tx_count s)"
    and buf: "unat sz \<le> length buffer"
    and fuel: "3 \<le> fuel"
  shows "\<exists>D W. write_loop cfg fuel buffer sz count (s, d) =
           Some (Inr (sz, s\<lparr>tx_data := D, tx_write := W, tx_count := tx_count s + (sz - count)\<rparr>, d)) \<and>
         length D = unat (CDC_TX_BUFFER_SIZE cfg) \<and> W < CDC_TX_BUFFER_SIZE cfg"
proof (cases "unat sz - unat count \<le> unat (CDC_TX_BUFFER_SIZE cfg) - unat (tx_write s)")
  case True
  from fuel have "2 \<le> fuel" by simp
  from write_loop_last [OF pow ring le fit True buf this] show ?thesis .
next
  case False
  let ?cap = "CDC_TX_BUFFER_SIZE cfg"
  from fuel obtain f where f: "fuel = Suc f" "2 \<le> f"
    by (metis Suc_le_D Suc_le_mono numeral_2_eq_2 numeral_3_eq_3)
  have len: "length (tx_data s) = unat ?cap" and w: "tx_write s < ?cap"
    and c: "tx_count s \<le> ?cap" and r: "tx_read s < ?cap"
    using ring by (auto simp: tx_ring_ok_def)
  have wN: "unat (tx_write s) < unat ?cap" and cN: "unat (tx_count s) \<le> unat ?cap"
    using w c by (simp_all add: word_less_nat_alt word_le_nat_alt)
  from False have kn: "unat count < unat sz" by simp
  then have lt: "count < sz" by (simp add: word_less_nat_alt)
  from tx_queue_fits [OF pow ring le fit buf] obtain cnt D W where
    q: "tx_queue cfg buffer sz count s =
          Inr (count + cnt, s\<lparr>tx_data := D, tx_write := W, tx_count := tx_count s + cnt\<rparr>)"
    and cnt: "unat cnt = min (unat ?cap - unat (tx_write s)) (unat sz - unat count)"
    and k': "unat (count + cnt) = unat count + unat cnt"
    and c': "unat (tx_count s + cnt) = unat (tx_count s) + unat cnt"
    and dl: "length D = length (tx_data s)"
    and w': "unat W = (unat (tx_write s) + unat cnt) mod unat ?cap"
    by blast
  let ?s1 = "s\<lparr>tx_data := D, tx_write := W, tx_count := tx_count s + cnt\<rparr>"
  from cnt False have cnt_eq: "unat cnt = unat ?cap - unat (tx_write s)" by simp
  with w' wN have "unat W = 0" by simp
  then have W0: "W = 0" by (simp add: unat_0_iff)
  have cap0: "0 < ?cap" using wN by (simp add: word_less_nat_alt)
  have ring1: "tx_ring_ok cfg ?s1"
    using r cap0 c' fit cnt_eq False dl len
    by (simp add: tx_ring_ok_def W0 word_le_nat_alt)
  have le1: "count + cnt \<le> sz" using k' cnt_eq False by (simp add: word_le_nat_alt)
  have fit1: "unat sz - unat (count + cnt) \<le> unat ?cap - unat (tx_count ?s1)"
    using k' c' fit by simp
  have span1: "unat sz - unat (count + cnt) \<le> unat ?cap - unat (tx_write ?s1)"
    using k' fit cN by (simp add: W0)
  from write_loop_last [OF pow ring1 le1 fit1 span1 buf f(2), of d] obtain D2 W2 where
    l: "write_loop cfg f buffer sz (count + cnt) (?s1, d) =
          Some (Inr (sz, ?s1\<lparr>tx_data := D2, tx_write := W2,
                               tx_count := tx_count ?s1 + (sz - (count + cnt))\<rparr>, d))"
    and dl2: "length D2 = unat ?cap" and w2: "W2 < ?cap"
    by blast
  have "unat ?cap - unat (tx_count s) \<noteq> 0" using fit kn by simp
  then have "?cap - tx_count s \<noteq> 0"
    by (metis unat_0 unat_sub_if' diff_is_0_eq' less_imp_le_nat linorder_not_le)
  then have room: "tx_make_room cfg f (s, d) = Some (Inr (s, d))"
    by (rule tx_make_room_free)
  have "write_loop cfg fuel buffer sz count (s, d) =
      Some (Inr (sz, s\<lparr>tx_data := D2, tx_write := W2, tx_count := tx_count s + (sz - count)\<rparr>, d))"
    using lt room q l by (simp add: f(1))
  with dl2 w2 show ?thesis by blast
qed

lemma tx_size_unat:
  fixes cap rd cnt pk :: u32
  assumes "rd \<le> cap"
  shows "unat (if (if cnt > cap - rd then cap - rd else cnt) > pk then pk
               else (if cnt > cap - rd then cap - rd else cnt))
         = min (min (unat cnt) (unat cap - unat rd)) (unat pk)"
  using assms by (auto simp: word_less_nat_alt word_le_nat_alt unat_sub)

lemma tx_start_ok:
  assumes "tx_ring_ok cfg s"
  shows "\<exists>z packet. tx_start cfg (s, d) = Inr (s\<lparr>tx_size := z\<rparr>, stm32l4_usbd_cdc_transmit d packet) \<and>
           length packet = unat z \<and>
           unat z = min (min (unat (tx_count s))
                             (unat (CDC_TX_BUFFER_SIZE cfg) - unat (tx_read s)))
                        (unat (CDC_TX_PACKET_SIZE cfg))"
proof -
  let ?cap = "CDC_TX_BUFFER_SIZE cfg"
  let ?z1 = "(if tx_count s > ?cap - tx_read s then ?cap - tx_read s else tx_count s)"
  let ?z = "(if ?z1 > CDC_TX_PACKET_SIZE cfg then CDC_TX_PACKET_SIZE cfg else ?z1)"
  have len: "length (tx_data s) = unat ?cap" and r: "tx_read s \<le> ?cap"
    using assms by (auto simp: tx_ring_ok_def)
  have zN: "unat ?z = min (min (unat (tx_count s)) (unat ?cap - unat (tx_read s)))
                        (unat (CDC_TX_PACKET_SIZE cfg))"
    by (rule tx_size_unat [OF r])
  have "unat (tx_read s) \<le> unat ?cap" using r by (simp add: word_le_nat_alt)
  then have "unat (tx_read s) + unat ?z \<le> length (tx_data s)"
    unfolding zN len by simp
  from mem_read_Some [OF this] obtain packet
    where rd: "mem_read (tx_data s) (unat (tx_read s)) (unat ?z) = Some packet"
      and pl: "length packet = unat ?z"
    by blast
  have st: "tx_start cfg (s, d) = Inr (s\<lparr>tx_size := ?z\<rparr>, stm32l4_usbd_cdc_transmit d packet)"
    using rd by (simp add: tx_start_def Let_def split del: if_split)
  from st pl zN show ?thesis by blast
qed

lemma yields_transmit [simp]: "yields (stm32l4_usbd_cdc_transmit d packet) = yields d"
  by (simp add: stm32l4_usbd_cdc_transmit_def)

lemma write_fits:
  assumes pow: "is_pow2 (CDC_TX_BUFFER_SIZE cfg)"
    and ring: "tx_ring_ok cfg s"
    and ready: "USBD_CDC_STATE_READY cfg \<le> state d" "lineState d AND 2 \<noteq> 0"
    and ctx: "\<not> blocking s \<or> ipsr \<noteq> 0"
    and buf: "unat sz \<le> length buffer"
    and fuel: "3 \<le> fuel"
  shows "\<exists>s' d'. write_bulk cfg fuel ipsr buffer sz (s, d) =
           Some (Inr (min sz (CDC_TX_BUFFER_SIZE cfg - tx_count s), s', d')) \<and>
         yields d' = yields d"
proof -
  let ?cap = "CDC_TX_BUFFER_SIZE cfg"
  define sz1 where "sz1 = (if sz > ?cap - tx_count s then ?cap - tx_count s else sz)"
  let ?s0 = "s\<lparr>tx_total := tx_total s + sz1\<rparr>"
  have sz1: "sz1 = min sz (?cap - tx_count s)" by (auto simp: sz1_def min_def)
  have c: "tx_count s \<le> ?cap" using ring by (simp add: tx_ring_ok_def)
  have free: "unat (?cap - tx_count s) = unat ?cap - unat (tx_count s)" using c by (rule unat_sub)
  have ring0: "tx_ring_ok cfg ?s0" using ring by (simp add: tx_ring_ok_def)
  have le1: "unat sz1 \<le> unat ?cap - unat (tx_count s)" "unat sz1 \<le> unat sz"
    using free by (auto simp: sz1_def word_less_nat_alt)
  have fit: "unat sz1 - unat (0::u32) \<le> unat ?cap - unat (tx_count ?s0)" using le1(1) by simp
  have buf1: "unat sz1 \<le> length buffer" using le1(2) buf by (rule order_trans)
  from write_loop_fits [OF pow ring0 _ fit buf1 fuel, of d] obtain D W where
    l: "write_loop cfg fuel buffer sz1 0 (?s0, d) =
          Some (Inr (sz1, ?s0\<lparr>tx_data := D, tx_write := W, tx_count := tx_count ?s0 + (sz1 - 0)\<rparr>, d))"
    and dl: "length D = unat ?cap" and w: "W < ?cap"
    by auto
  let ?s1 = "?s0\<lparr>tx_data := D, tx_write := W, tx_count := tx_count ?s0 + (sz1 - 0)\<rparr>"
  have "unat (tx_count s + sz1) = unat (tx_count s) + unat sz1"
    using le1(1) c by (intro unat_add_small [where cap = ?cap]) (simp add: word_le_nat_alt)
  then have "tx_count s + sz1 \<le> ?cap" using le1(1) c by (simp add: word_le_nat_alt)
  then have ring1: "tx_ring_ok cfg ?s1" using ring dl w by (simp add: tx_ring_ok_def)
  from tx_start_ok [OF ring1, of d] obtain z packet where
    st: "tx_start cfg (?s1, d) = Inr (?s1\<lparr>tx_size := z\<rparr>, stm32l4_usbd_cdc_transmit d packet)"
    by blast
  have wb: "write_bulk cfg fuel ipsr buffer sz (s, d) =
      (case write_loop cfg fuel buffer sz1 0 (?s0, d) of
         None \<Rightarrow> None
       | Some (Inl e) \<Rightarrow> Some (Inl e)
       | Some (Inr (count, s1, d1)) \<Rightarrow>
           (if ipsr = 0 \<and> stm32l4_usbd_cdc_done d1 \<and> tx_count s1 \<noteq> 0
            then (case tx_start cfg (s1, d1) of
                    Inl e \<Rightarrow> Some (Inl e)
                  | Inr (s2, d2) \<Rightarrow> Some (Inr (count, s2, d2)))
            else Some (Inr (count, s1, d1))))"
    using ready ctx unfolding sz1_def
    by (simp add: write_bulk_def Let_def split del: if_split)
  show ?thesis
    unfolding wb l sz1 [symmetric] using st by auto
qed

lemma is_pow2_cfg64: "is_pow2 (CDC_TX_BUFFER_SIZE cfg64)" "is_pow2 (CDC_RX_BUFFER_SIZE cfg64)"
  by code_simp+

lemma tx_ring_ok_init: "CDC_TX_BUFFER_SIZE cfg \<noteq> 0 \<Longrightarrow> tx_ring_ok cfg (CDC_init cfg)"
  by (simp add: tx_ring_ok_def CDC_init_def word_greater_zero_iff)

lemma reach_tx_ring_ok:
  assumes "is_pow2 (CDC_TX_BUFFER_SIZE cfg)"
    and "run cfg fuel ops (CDC_init cfg, d0) = Some (Inr (s, d))"
  shows "tx_ring_ok cfg s"
proof -
  from is_pow2D [OF assms(1)] obtain k where k: "k < 32" "CDC_TX_BUFFER_SIZE cfg = 2 ^ k" by blast
  have "unat (CDC_TX_BUFFER_SIZE cfg) \<noteq> 0" by (simp add: k(2) unat_pow2 [OF k(1)])
  then have "CDC_TX_BUFFER_SIZE cfg \<noteq> 0" by (simp add: unat_0_iff)
  moreover have "cdc_inv cfg 0 s"
    using holdsD [OF run_inv [OF CDC_init_inv] assms(2)] by simp
  ultimately show ?thesis by (simp add: cdc_inv_def cursors_ok_def tx_ring_ok_def)
qed

text \<open>
  C4: in every state reached from the constructed object, with blocking disabled or from
  an interrupt handler, and the device ready with the flow-control line asserted, \<open>write\<close> returns the minimum of \<open>size\<close> and the free
  space at entry. It does so within three passes of the loop test whatever the sizes are,
  it never yields, and the result does not depend on any interrupt becoming pending.
\<close>

theorem write_never_blocks:
  assumes pow: "is_pow2 (CDC_TX_BUFFER_SIZE cfg)"
    and reach: "run cfg fuel0 ops (CDC_init cfg, d0) = Some (Inr (s, d))"
    and ready: "USBD_CDC_STATE_READY cfg \<le> state d" "lineState d AND 2 \<noteq> 0"
    and ctx: "\<not> blocking s \<or> ipsr \<noteq> 0"
    and buf: "unat sz \<le> length buffer"
    and fuel: "3 \<le> fuel"
  shows "\<exists>s' d'. write_bulk cfg fuel ipsr buffer sz (s, d) =
           Some (Inr (min sz (CDC_TX_BUFFER_SIZE cfg - tx_count s), s', d')) \<and>
         yields d' = yields d"
  using pow reach_tx_ring_ok [OF pow reach] ready ctx buf fuel by (rule write_fits)

lemma full_nonblocking_eval:
  "case run cfg64 3 full_nonblocking_ops (CDC_init cfg64, dev_ready) of
     Some (Inr (s, d)) \<Rightarrow> tx_count s = 64 \<and> \<not> blocking s \<and> state d = 2 \<and> lineState d = 3
   | _ \<Rightarrow> False"
  by code_simp

theorem write_never_blocks_witness:
  "\<exists>s d. run cfg64 3 full_nonblocking_ops (CDC_init cfg64, dev_ready) = Some (Inr (s, d)) \<and>
     is_pow2 (CDC_TX_BUFFER_SIZE cfg64) \<and>
     USBD_CDC_STATE_READY cfg64 \<le> state d \<and> lineState d AND 2 \<noteq> 0 \<and> \<not> blocking s \<and>
     unat (10 :: u32) \<le> length (replicate 10 (2 :: u8)) \<and>
     tx_count s = 64 \<and>
     (\<exists>s' d'. write_bulk cfg64 3 0 (replicate 10 2) 10 (s, d) = Some (Inr (0, s', d')) \<and>
              yields d' = yields d)"
proof -
  from full_nonblocking_eval obtain s d where
    r: "run cfg64 3 full_nonblocking_ops (CDC_init cfg64, dev_ready) = Some (Inr (s, d))"
    and p: "tx_count s = 64 \<and> \<not> blocking s \<and> state d = 2 \<and> lineState d = 3"
    by (rule res_pairE)
  have h1: "is_pow2 (CDC_TX_BUFFER_SIZE cfg64)" by (rule is_pow2_cfg64)
  have h3: "USBD_CDC_STATE_READY cfg64 \<le> state d" "lineState d AND 2 \<noteq> 0"
    using p by (simp_all add: cfg64_def)
  have h4: "\<not> blocking s" and c: "tx_count s = 64" using p by simp_all
  from h4 have h4': "\<not> blocking s \<or> (0 :: u32) \<noteq> 0" by simp
  have h5: "unat (10 :: u32) \<le> length (replicate 10 (2 :: u8))" by simp
  have h6: "(3 :: nat) \<le> 3" by simp
  have "min (10 :: u32) (CDC_TX_BUFFER_SIZE cfg64 - tx_count s) = 0"
    by (simp add: c cfg64_def)
  with write_never_blocks [OF h1 r h3 h4' h5 h6]
  have "\<exists>s' d'. write_bulk cfg64 3 0 (replicate 10 2) 10 (s, d) = Some (Inr (0, s', d')) \<and>
              yields d' = yields d"
    by simp
  with r h1 h3 h4 h5 c show ?thesis by blast
qed

text \<open>
  C6: when the device state is below ready or the RTS bit of the line state is clear,
  \<open>write\<close> returns 0 and neither the object (buffer, cursors, counters, \<open>_tx_total\<close>,
  \<open>_tx_size\<close>) nor the device side changes.
\<close>

theorem write_rejected:
  assumes "state d < USBD_CDC_STATE_READY cfg \<or> lineState d AND 2 = 0"
  shows "write_bulk cfg fuel ipsr buffer sz (s, d) = Some (Inr (0, s, d))"
  using assms by (simp add: write_bulk_def)

theorem write_rejected_witness:
  "state dev_not_ready < USBD_CDC_STATE_READY cfg64 \<and>
   write_bulk cfg64 0 0 [1, 2, 3] 3 (CDC_init cfg64, dev_not_ready)
     = Some (Inr (0, CDC_init cfg64, dev_not_ready))"
proof -
  have h: "state dev_not_ready < USBD_CDC_STATE_READY cfg64"
    by (simp add: dev_not_ready_def dev_ready_def cfg64_def)
  then have "state dev_not_ready < USBD_CDC_STATE_READY cfg64 \<or> lineState dev_not_ready AND 2 = 0"
    by simp
  from h write_rejected [OF this] show ?thesis by blast
qed

section \<open>Receiving and reading\<close>

lemma rx_span_unat:
  fixes cap cnt wr :: u32
  assumes "cnt \<le> cap" "wr \<le> cap"
  shows "unat (if cap - cnt > cap - wr then cap - wr else cap - cnt)
         = min (unat cap - unat cnt) (unat cap - unat wr)"
  using assms by (auto simp: word_less_nat_alt word_le_nat_alt unat_sub)

lemma rx_pull_static:
  assumes ring: "rx_ring_ok cfg s" and arr: "rx_arrivals d = []"
  shows "\<exists>sz s' d'. rx_pull cfg (s, d) = Inr (sz, s', d') \<and> rx_ring_ok cfg s' \<and>
           rx_arrivals d' = [] \<and>
           unat (rx_count s') + length (rx_fifo d') = unat (rx_count s) + length (rx_fifo d)"
proof -
  let ?cap = "CDC_RX_BUFFER_SIZE cfg"
  define cnt where "cnt = (if ?cap - rx_count s > ?cap - rx_write s then ?cap - rx_write s
               else ?cap - rx_count s)"
  define rcv where "rcv = stm32l4_usbd_cdc_receive d (unat cnt)"
  define sz where "sz = (word_of_nat (length (fst rcv)) :: u32)"
  have c: "rx_count s \<le> ?cap" and w: "rx_write s \<le> ?cap" and r: "rx_read s < ?cap"
    and len: "length (rx_data s) = unat ?cap"
    using ring by (auto simp: rx_ring_ok_def)
  have cN: "unat (rx_count s) \<le> unat ?cap" and wN: "unat (rx_write s) \<le> unat ?cap"
    using c w by (simp_all add: word_le_nat_alt)
  have cnt: "unat cnt = min (unat ?cap - unat (rx_count s)) (unat ?cap - unat (rx_write s))"
    unfolding cnt_def by (rule rx_span_unat [OF c w])
  have rl: "length (fst rcv) \<le> unat cnt" unfolding rcv_def by (rule receive_length)
  have szN: "unat sz = length (fst rcv)" unfolding sz_def using rl by (rule le_unat_uoi)
  have fst_rcv: "fst rcv = take (unat cnt) (rx_fifo d)"
    and snd_rcv: "rx_fifo (snd rcv) = drop (unat cnt) (rx_fifo d)" "rx_arrivals (snd rcv) = []"
    using arr by (simp_all add: rcv_def stm32l4_usbd_cdc_receive_def Let_def)
  have "unat (rx_write s) + length (fst rcv) \<le> length (rx_data s)"
    using rl cnt wN len by arith
  from mem_write_Some [OF this] obtain data'
    where wr: "mem_write (rx_data s) (unat (rx_write s)) (fst rcv) = Some data'"
      and dl: "length data' = length (rx_data s)"
    by blast
  let ?s' = "s\<lparr>rx_data := data', rx_write := (rx_write s + sz) AND (?cap - 1),
              rx_count := rx_count s + sz\<rparr>"
  have pull: "rx_pull cfg (s, d) = Inr (sz, ?s', snd rcv)"
    using wr unfolding sz_def rcv_def cnt_def
    by (simp add: rx_pull_def Let_def split del: if_split)
  have "unat (rx_count s) + unat sz \<le> unat ?cap" using szN rl cnt cN by arith
  then have c': "unat (rx_count s + sz) = unat (rx_count s) + unat sz"
    by (rule unat_add_small)
  have cap0: "?cap \<noteq> 0" using r by auto
  have "unat (rx_count s) + unat sz \<le> unat ?cap" using szN rl cnt cN by arith
  then have ring': "rx_ring_ok cfg ?s'"
    using c' r dl len and_cap_less [OF cap0]
    by (simp add: rx_ring_ok_def word_le_nat_alt)
  have "length (fst rcv) + length (rx_fifo (snd rcv)) = length (rx_fifo d)"
    by (simp add: snd_rcv fst_rcv)
  then have cons: "unat (rx_count ?s') + length (rx_fifo (snd rcv))
      = unat (rx_count s) + length (rx_fifo d)"
    using c' szN by simp
  from pull ring' snd_rcv(2) cons show ?thesis by blast
qed

lemma rx_drain_static:
  assumes "rx_ring_ok cfg s" "rx_arrivals d = []"
  shows "case rx_drain cfg fuel count (s, d) of
           None \<Rightarrow> True
         | Some (Inl e) \<Rightarrow> False
         | Some (Inr (c, s', d')) \<Rightarrow>
             rx_ring_ok cfg s' \<and> rx_arrivals d' = [] \<and>
             unat (rx_count s') + length (rx_fifo d') = unat (rx_count s) + length (rx_fifo d)"
  using assms
proof (induction fuel arbitrary: count s d)
  case 0
  then show ?case by simp
next
  case (Suc fuel)
  from rx_pull_static [OF Suc.prems] obtain sz s1 d1 where
    p: "rx_pull cfg (s, d) = Inr (sz, s1, d1)" and r1: "rx_ring_ok cfg s1"
    and a1: "rx_arrivals d1 = []"
    and c1: "unat (rx_count s1) + length (rx_fifo d1) = unat (rx_count s) + length (rx_fifo d)"
    by blast
  show ?case
    using Suc.prems p r1 a1 c1 Suc.IH [OF r1 a1, of "count + sz"]
    by (auto split: option.splits sum.splits)
qed

lemma rx_event_stalls:
  assumes "rx_ring_ok cfg s" "rx_arrivals d = []"
    and "unat (rx_count s) + length (rx_fifo d) < unat (CDC_RX_BUFFER_SIZE cfg)"
  shows "rx_event cfg fuel (s, d) = None"
  using assms
proof (induction fuel arbitrary: s d)
  case 0
  then show ?case by simp
next
  case (Suc fuel)
  have ne: "rx_count s \<noteq> CDC_RX_BUFFER_SIZE cfg" using Suc.prems(3) by auto
  show ?case
  proof (cases "rx_drain cfg fuel 0 (s, d)")
    case None
    with ne show ?thesis by simp
  next
    case (Some r)
    with rx_drain_static [OF Suc.prems(1,2), of fuel 0] obtain c s' d' where
      r: "r = Inr (c, s', d')" and r1: "rx_ring_ok cfg s'" and a1: "rx_arrivals d' = []"
      and c1: "unat (rx_count s') + length (rx_fifo d') = unat (rx_count s) + length (rx_fifo d)"
      by (cases r) auto
    have lt: "unat (rx_count s') + length (rx_fifo d') < unat (CDC_RX_BUFFER_SIZE cfg)"
      using c1 Suc.prems(3) by simp
    have "rx_event cfg fuel (s', d') = None" by (rule Suc.IH [OF r1 a1 lt])
    moreover have "rx_event cfg fuel (s', d'\<lparr>receive_calls := receive_calls d' @ [c]\<rparr>) = None"
      using r1 a1 lt by (intro Suc.IH) simp_all
    ultimately show ?thesis using ne Some r by simp
  qed
qed

lemma EventCallback_stalls:
  assumes "rx_ring_ok cfg s" "rx_arrivals d = []"
    and "unat (rx_count s) + length (rx_fifo d) < unat (CDC_RX_BUFFER_SIZE cfg)"
    and "events AND USBD_CDC_EVENT_RECEIVE cfg \<noteq> 0"
  shows "EventCallback cfg fuel events (s, d) = None"
  using rx_event_stalls [OF assms(1-3)] assms(4) by (simp add: EventCallback_def)

lemma rx_ring_ok_init: "CDC_RX_BUFFER_SIZE cfg \<noteq> 0 \<Longrightarrow> rx_ring_ok cfg (CDC_init cfg)"
  by (simp add: rx_ring_ok_def CDC_init_def word_greater_zero_iff)

text \<open>
  C2, at a failing input: the object is freshly constructed (64-byte receive buffer,
  empty) and the device stack holds three bytes when the receive event is raised. The
  callback pulls the three bytes, gets a zero-length chunk, and starts over: for no amount
  of fuel does it return.
\<close>

theorem receive_event_never_returns:
  "\<forall>fuel. EventCallback cfg64 fuel (USBD_CDC_EVENT_RECEIVE cfg64)
            (CDC_init cfg64, dev_ready\<lparr>rx_fifo := [1, 2, 3]\<rparr>) = None"
proof
  fix fuel
  have "rx_ring_ok cfg64 (CDC_init cfg64)" by (rule rx_ring_ok_init) (simp add: cfg64_def)
  then show "EventCallback cfg64 fuel (USBD_CDC_EVENT_RECEIVE cfg64)
            (CDC_init cfg64, dev_ready\<lparr>rx_fifo := [1, 2, 3]\<rparr>) = None"
    by (rule EventCallback_stalls) (simp_all add: dev_ready_def cfg64_def CDC_init_def)
qed

lemma read_example_eval:
  "case run cfg64 4 host_sends_64 (CDC_init cfg64, dev_ready) of
     Some (Inr (s, d)) \<Rightarrow>
       available s = 64 \<and>
       (case read_bulk cfg64 4 (replicate 64 0) 1 s of
          Some (Inr (n, buffer, s')) \<Rightarrow> n = 64 \<and> buffer = map word_of_nat [0..<64] \<and> rx_count s' = 0
        | _ \<Rightarrow> False) \<and>
       read_bulk cfg64 4 [0] 1 s = Some (Inl OutOfBounds)
   | _ \<Rightarrow> False"
  by code_simp

lemma read_uart16_eval:
  "case run cfg_uart16 4 (host_sends_64 @ replicate 16 ReadByte) (CDC_init cfg_uart16, dev_ready) of
     Some (Inr (s, d)) \<Rightarrow> rx_read s = 16 \<and> rx_count s = 48 \<and> length (rx_data s) = 64
   | _ \<Rightarrow> False"
  by code_simp

lemma callback_twice_eval:
  "case EventCallback cfg64 5 (USBD_CDC_EVENT_RECEIVE cfg64)
          (onReceive True (CDC_init cfg64), dev_ready\<lparr>rx_arrivals := [[], replicate 64 7]\<rparr>) of
     Some (Inr (s, d)) \<Rightarrow> receive_calls d = [0, 64] \<and> rx_count s = 64
   | _ \<Rightarrow> False"
  by code_simp

lemma roundtrip_eval:
  "case write_bulk cfg64 3 0 [104, 105] 2 (CDC_init cfg64, dev_ready) of
     Some (Inr (n, s1, d1)) \<Rightarrow>
       n = 2 \<and>
       (case usbd_drain cfg64 3 (s1, d1) of
          Some (Inr (s2, d2)) \<Rightarrow>
            concat (tx_log d2) = [104, 105] \<and> rx_count s2 = 0 \<and> rx_read s2 = 0 \<and> rx_write s2 = 0 \<and>
            length (rx_data s2) = 64 \<and> rx_arrivals d2 = [] \<and> rx_fifo d2 = []
        | _ \<Rightarrow> False)
   | _ \<Rightarrow> False"
  by code_simp

lemma read_chunk_spins:
  assumes "rx_read s = UART_RX_BUFFER_SIZE cfg" "rx_count s \<noteq> 0"
    and "UART_RX_BUFFER_SIZE cfg AND (CDC_RX_BUFFER_SIZE cfg - 1) = UART_RX_BUFFER_SIZE cfg"
    and "unat (UART_RX_BUFFER_SIZE cfg) \<le> length (rx_data s)" "unat count \<le> length buffer"
  shows "read_chunk cfg buffer count s = Inr (count, buffer, s)"
proof -
  have "0 < rx_count s" using assms(2) by (simp add: word_greater_zero_iff)
  then have cnt: "(if rx_count s > UART_RX_BUFFER_SIZE cfg - rx_read s
         then UART_RX_BUFFER_SIZE cfg - rx_read s else rx_count s) = 0"
    using assms(1) by simp
  have rd: "mem_read (rx_data s) (unat (rx_read s)) 0 = Some []"
    using assms(1,4) by (simp add: mem_read_def)
  have wr: "mem_write buffer (unat count) [] = Some buffer"
    using assms(5) by (simp add: mem_write_def)
  have "s\<lparr>rx_read := rx_read s, rx_count := rx_count s\<rparr> = s" by simp
  then show ?thesis
    using rd wr assms(1,3) unfolding read_chunk_def Let_def cnt by simp
qed

lemma read_loop_spins:
  assumes "rx_read s = UART_RX_BUFFER_SIZE cfg" "rx_count s \<noteq> 0" "count < sz"
    and "UART_RX_BUFFER_SIZE cfg AND (CDC_RX_BUFFER_SIZE cfg - 1) = UART_RX_BUFFER_SIZE cfg"
    and "unat (UART_RX_BUFFER_SIZE cfg) \<le> length (rx_data s)" "unat count \<le> length buffer"
  shows "read_loop cfg fuel sz buffer count s = None"
proof (induction fuel)
  case 0
  show ?case by simp
next
  case (Suc fuel)
  from read_chunk_spins [OF assms(1,2,4,5,6)] Suc assms(2,3) show ?case by simp
qed

text \<open>
  C3, at two failing inputs. First (both macros 64): the receive buffer holds 64 bytes;
  \<open>read(buffer, 1)\<close> returns 64 and stores 64 bytes, and with a one-byte array it writes
  outside the array. Second (\<open>UART_RX_BUFFER_SIZE\<close> 16): with 48 bytes queued and the
  read cursor at 16, \<open>read(buffer, 64)\<close> never returns.
\<close>

theorem read_ignores_size:
  "(case run cfg64 4 host_sends_64 (CDC_init cfg64, dev_ready) of
      Some (Inr (s, d)) \<Rightarrow>
        available s = 64 \<and>
        (case read_bulk cfg64 4 (replicate 64 0) 1 s of
           Some (Inr (n, buffer, s')) \<Rightarrow>
             n = 64 \<and> buffer = map word_of_nat [0..<64] \<and> rx_count s' = 0
         | _ \<Rightarrow> False) \<and>
        read_bulk cfg64 4 [0] 1 s = Some (Inl OutOfBounds)
    | _ \<Rightarrow> False) \<and>
   (\<exists>s d. run cfg_uart16 4 (host_sends_64 @ replicate 16 ReadByte) (CDC_init cfg_uart16, dev_ready)
             = Some (Inr (s, d)) \<and>
          available s = 48 \<and>
          (\<forall>fuel. read_bulk cfg_uart16 fuel (replicate 64 0) 64 s = None))"
proof
  show "case run cfg64 4 host_sends_64 (CDC_init cfg64, dev_ready) of
      Some (Inr (s, d)) \<Rightarrow>
        available s = 64 \<and>
        (case read_bulk cfg64 4 (replicate 64 0) 1 s of
           Some (Inr (n, buffer, s')) \<Rightarrow>
             n = 64 \<and> buffer = map word_of_nat [0..<64] \<and> rx_count s' = 0
         | _ \<Rightarrow> False) \<and>
        read_bulk cfg64 4 [0] 1 s = Some (Inl OutOfBounds)
    | _ \<Rightarrow> False"
    by (rule read_example_eval)
next
  from read_uart16_eval obtain s d where
    r: "run cfg_uart16 4 (host_sends_64 @ replicate 16 ReadByte) (CDC_init cfg_uart16, dev_ready)
          = Some (Inr (s, d))"
    and s': "rx_read s = 16 \<and> rx_count s = 48 \<and> length (rx_data s) = 64"
    by (rule res_pairE)
  from s' have s: "rx_read s = 16" "rx_count s = 48" "length (rx_data s) = 64" by blast+
  have "read_bulk cfg_uart16 fuel (replicate 64 0) 64 s = None" for fuel
    unfolding read_bulk_def
    by (rule read_loop_spins) (simp_all add: s cfg_uart16_def cfg64_def)
  moreover have "available s = 48" by (simp add: available_def s)
  ultimately show "\<exists>s d. run cfg_uart16 4 (host_sends_64 @ replicate 16 ReadByte)
             (CDC_init cfg_uart16, dev_ready) = Some (Inr (s, d)) \<and>
          available s = 48 \<and>
          (\<forall>fuel. read_bulk cfg_uart16 fuel (replicate 64 0) 64 s = None)"
    using r by blast
qed

text \<open>
  C7, at a failing input: a callback is registered, the receive buffer is empty, the
  device stack has nothing buffered at the first \<open>receive\<close> and 64 bytes at the second.
  Within one invocation of the event callback the notification fires twice, with 0 and
  with 64.
\<close>

theorem receive_callback_fires_twice:
  "case EventCallback cfg64 5 (USBD_CDC_EVENT_RECEIVE cfg64)
          (onReceive True (CDC_init cfg64), dev_ready\<lparr>rx_arrivals := [[], replicate 64 7]\<rparr>) of
     Some (Inr (s, d)) \<Rightarrow> receive_calls d = [0, 64] \<and> rx_count s = 64
   | _ \<Rightarrow> False"
  by (rule callback_twice_eval)

text \<open>
  C8, at a failing input: two bytes are written and accepted, the device drains them (the
  wire carries exactly these two bytes) and echoes them back; the receive event that
  delivers the echo never returns, so no \<open>read\<close> ever sees the bytes.
\<close>

theorem roundtrip_never_completes:
  "\<exists>s1 d1 s2 d2.
     write_bulk cfg64 3 0 [104, 105] 2 (CDC_init cfg64, dev_ready) = Some (Inr (2, s1, d1)) \<and>
     usbd_drain cfg64 3 (s1, d1) = Some (Inr (s2, d2)) \<and>
     concat (tx_log d2) = [104, 105] \<and>
     (\<forall>fuel. usbd_irq cfg64 fuel (USBD_CDC_EVENT_RECEIVE cfg64) (s2, usbd_echo d2) = None)"
proof -
  from roundtrip_eval obtain n s1 d1 where
    w': "write_bulk cfg64 3 0 [104, 105] 2 (CDC_init cfg64, dev_ready) = Some (Inr (n, s1, d1))"
    and rest: "n = 2 \<and>
       (case usbd_drain cfg64 3 (s1, d1) of
          None \<Rightarrow> False | Some (Inl e) \<Rightarrow> False
        | Some (Inr (s2, d2)) \<Rightarrow>
            concat (tx_log d2) = [104, 105] \<and> rx_count s2 = 0 \<and> rx_read s2 = 0 \<and> rx_write s2 = 0 \<and>
            length (rx_data s2) = 64 \<and> rx_arrivals d2 = [] \<and> rx_fifo d2 = [])"
    by (rule res_tripleE)
  from rest have n: "n = 2" by (rule conjunct1)
  from rest [THEN conjunct2] obtain s2 d2 where
    dr: "usbd_drain cfg64 3 (s1, d1) = Some (Inr (s2, d2))"
    and all: "concat (tx_log d2) = [104, 105] \<and> rx_count s2 = 0 \<and> rx_read s2 = 0 \<and> rx_write s2 = 0 \<and>
            length (rx_data s2) = 64 \<and> rx_arrivals d2 = [] \<and> rx_fifo d2 = []"
    by (rule res_pairE)
  from all have wire: "concat (tx_log d2) = [104, 105]"
    and s2: "rx_count s2 = 0" "rx_read s2 = 0" "rx_write s2 = 0" "length (rx_data s2) = 64"
    and d2: "rx_arrivals d2 = []" "rx_fifo d2 = []"
    by blast+
  from w' n have w: "write_bulk cfg64 3 0 [104, 105] 2 (CDC_init cfg64, dev_ready) = Some (Inr (2, s1, d1))"
    by (simp only:)
  have ring: "rx_ring_ok cfg64 s2" by (simp add: rx_ring_ok_def s2 cfg64_def)
  have "usbd_irq cfg64 fuel (USBD_CDC_EVENT_RECEIVE cfg64) (s2, usbd_echo d2) = None" for fuel
  proof -
    have "EventCallback cfg64 fuel (USBD_CDC_EVENT_RECEIVE cfg64) (s2, usbd_echo d2) = None"
      using ring by (rule EventCallback_stalls) (simp_all add: usbd_echo_def d2 s2 wire cfg64_def)
    then show ?thesis by (simp add: usbd_irq_def cfg64_def)
  qed
  with w dr wire show ?thesis by blast
qed

theorem roundtrip_never_completes_witness:
  "\<exists>s1 d1. write_bulk cfg64 3 0 [104, 105] 2 (CDC_init cfg64, dev_ready) = Some (Inr (2, s1, d1))"
  using roundtrip_never_completes by blast

section \<open>The packet-size ceiling\<close>

lemma unat_minus_1_u32: "unat (- 1 :: u32) = 4294967295"
proof -
  have "unat (- 1 :: u32) = mask LENGTH(32)" by (rule unsigned_minus_1_eq_mask)
  also have "(mask LENGTH(32) :: nat) = 2 ^ LENGTH(32) - 1" by (rule mask_eq_exp_minus_1)
  finally show ?thesis by simp
qed

lemma pred_mod_64:
  assumes "0 < (y::nat)" "y mod 64 = 0"
  shows "(y - 1) mod 64 = 63"
proof -
  from assms(2) have "64 dvd y" by (simp add: dvd_eq_mod_eq_0)
  then obtain q where q: "y = 64 * q" by (auto elim: dvdE)
  with assms(1) obtain k where "q = Suc k" by (cases q) auto
  with q have "y - 1 = 63 + 64 * k" by simp
  then show ?thesis by simp
qed

lemma packet_size_mod:
  "unat (CDC_TX_PACKET_SIZE cfg) mod 64 = 63"
proof -
  define y where "y = (USBD_CDC_FIFO_SIZE cfg + 63) AND NOT (63 :: u32)"
  have m: "(63 :: u32) = mask 6" by (simp add: mask_eq_decr_exp)
  have "take_bit 6 y = take_bit 6 (USBD_CDC_FIFO_SIZE cfg + 63) AND take_bit 6 (NOT (mask 6 :: u32))"
    unfolding y_def m by (simp only: take_bit_and)
  also have "take_bit 6 (NOT (mask 6 :: u32)) = 0" by (rule take_bit_not_mask_eq_0) simp
  finally have "take_bit 6 y = 0" by simp
  moreover have "unat (take_bit 6 y) = take_bit 6 (unat y)" by (rule unsigned_take_bit_eq)
  ultimately have "take_bit 6 (unat y) = 0" by simp
  then have "unat y mod 2 ^ 6 = 0" by (simp only: take_bit_eq_mod)
  then have dvd: "unat y mod 64 = 0" by simp
  have "unat (y - 1) mod 64 = 63"
  proof (cases "y = 0")
    case True
    then show ?thesis by (simp add: unat_minus_1_u32)
  next
    case False
    then have "unat (y - 1) = unat y - 1" by (rule unat_minus_one)
    moreover have "0 < unat y" using False by (simp add: unat_gt_0)
    then have "(unat y - 1) mod 64 = 63" using dvd by (rule pred_mod_64)
    ultimately show ?thesis by (simp only:)
  qed
  then show ?thesis by (simp only: CDC_TX_PACKET_SIZE_def y_def)
qed

lemma holds_mono: "holds m P \<Longrightarrow> (\<And>x. P x \<Longrightarrow> Q x) \<Longrightarrow> holds m Q"
  by (auto simp: holds_def split: option.splits sum.splits)

lemma tx_same_refl [simp]: "tx_same s d s d"
  by (simp add: tx_same_def)

lemma tx_same_trans: "tx_same s d s1 d1 \<Longrightarrow> tx_same s1 d1 s2 d2 \<Longrightarrow> tx_same s d s2 d2"
  by (simp add: tx_same_def)

lemma tx_same_sum: "tx_same s d s' d' \<Longrightarrow> tx_sum cfg base s d \<Longrightarrow> tx_sum cfg base s' d'"
  by (simp add: tx_same_def tx_sum_def)

lemma tx_same_acct: "tx_same s d s' d' \<Longrightarrow> tx_acct cfg base s d \<Longrightarrow> tx_acct cfg base s' d'"
  by (simp add: tx_same_def tx_acct_def tx_sum_def)

lemma tx_same_kicked: "tx_same s d s' d' \<Longrightarrow> tx_kicked s d \<Longrightarrow> tx_kicked s' d'"
  by (simp add: tx_same_def tx_kicked_def)

lemma rx_pull_tx_same:
  "rx_pull cfg (s, d) = Inr (sz, s', d') \<Longrightarrow> tx_same s d s' d'"
  by (auto simp: rx_pull_def Let_def tx_same_def stm32l4_usbd_cdc_receive_def
      split: option.splits split del: if_split)

lemma rx_drain_tx_same:
  "holds (rx_drain cfg fuel count (s, d)) (\<lambda>(c, s', d'). tx_same s d s' d')"
proof (induction fuel arbitrary: count s d)
  case 0
  show ?case by simp
next
  case (Suc fuel)
  show ?case
  proof (cases "CDC_RX_BUFFER_SIZE cfg - rx_count s = 0")
    case True
    then show ?thesis by simp
  next
    case False
    show ?thesis
    proof (cases "rx_pull cfg (s, d)")
      case (Inl e)
      with False show ?thesis by simp
    next
      case (Inr r)
      obtain sz s1 d1 where r: "r = (sz, s1, d1)" by (cases r)
      have same1: "tx_same s d s1 d1" using Inr r by (auto dest: rx_pull_tx_same)
      have "holds (rx_drain cfg fuel (count + sz) (s1, d1)) (\<lambda>(c, s', d'). tx_same s d s' d')"
        by (rule holds_mono [OF Suc.IH]) (auto intro: tx_same_trans [OF same1])
      with False Inr r same1 show ?thesis by simp
    qed
  qed
qed

lemma rx_event_tx_same:
  "holds (rx_event cfg fuel (s, d)) (\<lambda>(s', d'). tx_same s d s' d')"
proof (induction fuel arbitrary: s d)
  case 0
  show ?case by simp
next
  case (Suc fuel)
  show ?case
  proof (cases "rx_count s \<noteq> CDC_RX_BUFFER_SIZE cfg")
    case False
    then show ?thesis by simp
  next
    case True
    have "holds (case rx_drain cfg fuel 0 (s, d) of
           None \<Rightarrow> None
         | Some (Inl e) \<Rightarrow> Some (Inl e)
         | Some (Inr (count, s', d')) \<Rightarrow>
             rx_event cfg fuel
               (s', if rx_count s = 0 \<and> receiveCallback s'
                    then d'\<lparr>receive_calls := receive_calls d' @ [count]\<rparr> else d'))
          (\<lambda>(s', d'). tx_same s d s' d')"
    proof (rule holds_bind [OF rx_drain_tx_same], clarify)
      fix c s1 d1
      assume same1: "tx_same s d s1 d1"
      let ?d1 = "if rx_count s = 0 \<and> receiveCallback s1
                 then d1\<lparr>receive_calls := receive_calls d1 @ [c]\<rparr> else d1"
      have same2: "tx_same s d s1 ?d1" using same1 by (simp add: tx_same_def)
      show "holds (rx_event cfg fuel (s1, ?d1)) (\<lambda>(s', d'). tx_same s d s' d')"
        by (rule holds_mono [OF Suc.IH]) (auto intro: tx_same_trans [OF same2])
    qed
    with True show ?thesis by simp
  qed
qed

lemma mem_read_length: "mem_read src off n = Some bytes \<Longrightarrow> length bytes = n"
  by (auto simp: mem_read_def split: if_splits)

lemma tx_size_le:
  fixes cap rd cnt pk :: u32
  shows "(if (if cnt > cap - rd then cap - rd else cnt) > pk then pk
          else (if cnt > cap - rd then cap - rd else cnt)) \<le> cnt"
    "(if (if cnt > cap - rd then cap - rd else cnt) > pk then pk
          else (if cnt > cap - rd then cap - rd else cnt)) \<le> pk"
  by auto

lemma tx_start_acct:
  assumes sum: "tx_sum cfg base s d" and idle: "tx_size s = 0"
    and st: "tx_start cfg (s, d) = Inr (s', d')"
  shows "tx_acct cfg base s' d' \<and> tx_busy d'"
proof -
  let ?cap = "CDC_TX_BUFFER_SIZE cfg"
  define z where "z = (if (if tx_count s > ?cap - tx_read s then ?cap - tx_read s else tx_count s)
                          > CDC_TX_PACKET_SIZE cfg then CDC_TX_PACKET_SIZE cfg
                       else (if tx_count s > ?cap - tx_read s then ?cap - tx_read s else tx_count s))"
  have z: "z \<le> tx_count s" "z \<le> CDC_TX_PACKET_SIZE cfg"
    unfolding z_def by (rule tx_size_le)+
  from st obtain packet where
    rd: "mem_read (tx_data s) (unat (tx_read s)) (unat z) = Some packet"
    and res: "s' = s\<lparr>tx_size := z\<rparr>" "d' = stm32l4_usbd_cdc_transmit d packet"
    unfolding z_def
    by (auto simp: tx_start_def Let_def split: option.splits split del: if_split)
  have pl: "length packet = unat z" using rd by (rule mem_read_length)
  have "sum_list (map length (tx_log d)) + unat (tx_count s) = base"
    using sum idle by (simp add: tx_sum_def)
  then have "tx_sum cfg base s' d'"
    using sum z pl
    by (simp add: res tx_sum_def stm32l4_usbd_cdc_transmit_def word_le_nat_alt)
  then show ?thesis
    by (simp add: tx_acct_def res stm32l4_usbd_cdc_transmit_def)
qed

lemma tx_event_acct:
  assumes sum: "tx_sum cfg base s d" and ev: "tx_event cfg (s, d) = Inr (s', d')"
  shows "tx_acct cfg base s' d' \<and> tx_kicked s' d'"
proof -
  let ?s1 = "s\<lparr>tx_read := (tx_read s + tx_size s) AND (CDC_TX_BUFFER_SIZE cfg - 1),
                tx_count := tx_count s - tx_size s,
                tx_total := tx_total s - tx_size s,
                tx_size := 0\<rparr>"
  have le: "tx_size s \<le> tx_count s" and cap: "tx_count s \<le> CDC_TX_BUFFER_SIZE cfg"
    using sum by (simp_all add: tx_sum_def)
  have sub: "unat (tx_count s - tx_size s) = unat (tx_count s) - unat (tx_size s)"
    using le by (rule unat_sub)
  have leN: "unat (tx_size s) \<le> unat (tx_count s)" using le by (simp add: word_le_nat_alt)
  have cap1: "tx_count s - tx_size s \<le> CDC_TX_BUFFER_SIZE cfg"
    using le cap by (rule word_sub_le_cap)
  have sum1: "tx_sum cfg base ?s1 d"
    using sum sub leN cap1 by (simp add: tx_sum_def)
  show ?thesis
  proof (cases "tx_count s - tx_size s = 0")
    case True
    then have "tx_count s' = 0 \<and> tx_size s' = 0 \<and> tx_sum cfg base s' d'"
      using ev sum1 by (auto simp: tx_event_def Let_def tx_sum_def)
    then show ?thesis by (simp add: tx_acct_def tx_kicked_def)
  next
    case False
    then obtain s2 d2 where st: "tx_start cfg (?s1, d) = Inr (s2, d2)"
      and res: "s' = s2" "tx_log d' = tx_log d2" "tx_busy d' = tx_busy d2"
      using ev by (auto simp: tx_event_def Let_def split: sum.splits if_splits)
    from tx_start_acct [OF sum1 _ st] have "tx_acct cfg base s2 d2 \<and> tx_busy d2" by simp
    then show ?thesis using res by (simp add: tx_acct_def tx_sum_def tx_kicked_def)
  qed
qed

lemma EventCallback_acct:
  assumes "tx_sum cfg base s d"
    and "events AND USBD_CDC_EVENT_TRANSMIT cfg \<noteq> 0 \<or> tx_busy d \<or> tx_size s = 0"
  shows "holds (EventCallback cfg fuel events (s, d))
           (\<lambda>(s', d'). tx_acct cfg base s' d' \<and>
                        (if events AND USBD_CDC_EVENT_TRANSMIT cfg \<noteq> 0 then tx_kicked s' d'
                         else tx_same s d s' d'))"
proof -
  let ?rx = "(if events AND USBD_CDC_EVENT_RECEIVE cfg \<noteq> 0 then rx_event cfg fuel (s, d)
              else Some (Inr (s, d)))"
  have rx: "holds ?rx (\<lambda>(s', d'). tx_same s d s' d')"
    using rx_event_tx_same [of cfg fuel s d] by simp
  have "holds (case ?rx of
        None \<Rightarrow> None
      | Some (Inl e) \<Rightarrow> Some (Inl e)
      | Some (Inr sd1) \<Rightarrow>
          (if events AND USBD_CDC_EVENT_TRANSMIT cfg \<noteq> 0 then Some (tx_event cfg sd1)
           else Some (Inr sd1)))
      (\<lambda>(s', d'). tx_acct cfg base s' d' \<and>
                   (if events AND USBD_CDC_EVENT_TRANSMIT cfg \<noteq> 0 then tx_kicked s' d'
                         else tx_same s d s' d'))"
  proof (rule holds_bind [OF rx], clarify)
    fix s1 d1
    assume same: "tx_same s d s1 d1"
    have sum1: "tx_sum cfg base s1 d1" using same assms(1) by (rule tx_same_sum)
    show "holds (if events AND USBD_CDC_EVENT_TRANSMIT cfg \<noteq> 0 then Some (tx_event cfg (s1, d1))
                 else Some (Inr (s1, d1)))
           (\<lambda>(s', d'). tx_acct cfg base s' d' \<and>
                        (if events AND USBD_CDC_EVENT_TRANSMIT cfg \<noteq> 0 then tx_kicked s' d'
                         else tx_same s d s' d'))"
    proof (cases "events AND USBD_CDC_EVENT_TRANSMIT cfg \<noteq> 0")
      case True
      show ?thesis
      proof (cases "tx_event cfg (s1, d1)")
        case (Inl e)
        with True show ?thesis by simp
      next
        case (Inr r)
        obtain s2 d2 where r: "r = (s2, d2)" by (cases r)
        from tx_event_acct [OF sum1] Inr r have "tx_acct cfg base s2 d2 \<and> tx_kicked s2 d2"
          by simp
        with True Inr r show ?thesis by simp
      qed
    next
      case False
      with assms(2) have "tx_busy d \<or> tx_size s = 0" by simp
      with assms(1) have "tx_acct cfg base s d" by (simp add: tx_acct_def)
      with same have "tx_acct cfg base s1 d1" by (rule tx_same_acct)
      with False same show ?thesis by simp
    qed
  qed
  then show ?thesis by (simp add: EventCallback_def)
qed

lemma usbd_irq_acct:
  assumes "tx_acct cfg base s d"
  shows "holds (usbd_irq cfg fuel events (s, d))
           (\<lambda>(s', d'). tx_acct cfg base s' d' \<and>
                        (if events AND USBD_CDC_EVENT_TRANSMIT cfg \<noteq> 0 then tx_kicked s' d'
                         else tx_same s d s' d'))"
proof (cases "events AND USBD_CDC_EVENT_TRANSMIT cfg \<noteq> 0")
  case True
  have "tx_sum cfg base s (d\<lparr>tx_busy := False\<rparr>)"
    using assms by (simp add: tx_acct_def tx_sum_def)
  then have "holds (EventCallback cfg fuel events (s, d\<lparr>tx_busy := False\<rparr>))
      (\<lambda>(s', d'). tx_acct cfg base s' d' \<and>
                   (if events AND USBD_CDC_EVENT_TRANSMIT cfg \<noteq> 0 then tx_kicked s' d'
                    else tx_same s (d\<lparr>tx_busy := False\<rparr>) s' d'))"
    using True by (intro EventCallback_acct) simp_all
  with True show ?thesis by (simp add: usbd_irq_def)
next
  case False
  have "tx_sum cfg base s d" "tx_busy d \<or> tx_size s = 0"
    using assms by (simp_all add: tx_acct_def)
  then have "holds (EventCallback cfg fuel events (s, d))
      (\<lambda>(s', d'). tx_acct cfg base s' d' \<and>
                   (if events AND USBD_CDC_EVENT_TRANSMIT cfg \<noteq> 0 then tx_kicked s' d'
                    else tx_same s d s' d'))"
    by (intro EventCallback_acct) simp_all
  with False show ?thesis by (simp add: usbd_irq_def)
qed

lemma armv7m_core_yield_acct:
  assumes "tx_acct cfg base s d"
  shows "holds (armv7m_core_yield cfg fuel (s, d)) (\<lambda>(s', d'). tx_acct cfg base s' d')"
proof (cases "irq_queue d")
  case Nil
  with assms show ?thesis
    by (simp add: armv7m_core_yield_def Let_def tx_acct_def tx_sum_def)
next
  case (Cons events pending)
  let ?d = "d\<lparr>yields := Suc (yields d), irq_queue := pending\<rparr>"
  have "tx_acct cfg base s ?d" using assms by (simp add: tx_acct_def tx_sum_def)
  from usbd_irq_acct [OF this, of fuel events]
  have "holds (usbd_irq cfg fuel events (s, ?d)) (\<lambda>(s', d'). tx_acct cfg base s' d')"
    by (rule holds_mono) auto
  with Cons show ?thesis by (simp add: armv7m_core_yield_def Let_def)
qed

lemma tx_wait_acct:
  "tx_acct cfg base s d \<Longrightarrow>
   holds (tx_wait cfg fuel (s, d)) (\<lambda>(s', d'). tx_acct cfg base s' d')"
proof (induction fuel arbitrary: s d)
  case 0
  show ?case by simp
next
  case (Suc fuel)
  have "holds (case armv7m_core_yield cfg fuel (s, d) of
           None \<Rightarrow> None
         | Some (Inl e) \<Rightarrow> Some (Inl e)
         | Some (Inr sd') \<Rightarrow> tx_wait cfg fuel sd') (\<lambda>(s', d'). tx_acct cfg base s' d')"
    by (rule holds_bind [OF armv7m_core_yield_acct [OF Suc.prems]]) (auto intro: Suc.IH)
  with Suc.prems show ?case by simp
qed

lemma tx_make_room_acct:
  assumes "tx_acct cfg base s d"
  shows "holds (tx_make_room cfg fuel (s, d)) (\<lambda>(s', d'). tx_acct cfg base s' d')"
proof (cases "CDC_TX_BUFFER_SIZE cfg - tx_count s = 0")
  case False
  with assms show ?thesis by (simp add: tx_make_room_def)
next
  case True
  show ?thesis
  proof (cases "stm32l4_usbd_cdc_done d")
    case False
    with True tx_wait_acct [OF assms, of fuel] show ?thesis by (simp add: tx_make_room_def)
  next
    case idle: True
    then have sum: "tx_sum cfg base s d" and z: "tx_size s = 0"
      using assms by (simp_all add: tx_acct_def stm32l4_usbd_cdc_done_def)
    show ?thesis
    proof (cases "tx_start cfg (s, d)")
      case (Inl e)
      with True idle show ?thesis by (simp add: tx_make_room_def)
    next
      case (Inr r)
      obtain s1 d1 where r: "r = (s1, d1)" by (cases r)
      from tx_start_acct [OF sum z] Inr r have "tx_acct cfg base s1 d1" by simp
      from tx_wait_acct [OF this, of fuel] True idle Inr r
      show ?thesis by (simp add: tx_make_room_def)
    qed
  qed
qed

lemma tx_queue_acct:
  assumes acct: "tx_acct cfg base s d" and le: "count \<le> sz"
    and q: "tx_queue cfg buffer sz count s = Inr (count', s')"
  shows "tx_acct cfg (base + unat count' - unat count) s' d \<and> count \<le> count' \<and> count' \<le> sz"
proof -
  let ?cap = "CDC_TX_BUFFER_SIZE cfg"
  define cnt where "cnt = (if (if ?cap - tx_count s > ?cap - tx_write s then ?cap - tx_write s
                               else ?cap - tx_count s) > sz - count then sz - count
                           else (if ?cap - tx_count s > ?cap - tx_write s then ?cap - tx_write s
                                 else ?cap - tx_count s))"
  have le1: "cnt \<le> ?cap - tx_count s" and le2: "cnt \<le> sz - count"
    unfolding cnt_def by (rule tx_span_le)+
  have cap: "tx_count s \<le> ?cap" and zc: "tx_size s \<le> tx_count s"
    using acct by (simp_all add: tx_acct_def tx_sum_def)
  note ar = tx_queue_arith [OF cap le1 le2 le]
  have res: "count' = count + cnt" "tx_count s' = tx_count s + cnt" "tx_size s' = tx_size s"
    using q unfolding cnt_def
    by (auto simp: tx_queue_def Let_def split: option.splits split del: if_split)
  have c': "unat (tx_count s + cnt) = unat (tx_count s) + unat cnt"
    using ar(1,3) by (simp add: unat_plus_simple [symmetric])
  have "unat cnt \<le> unat (sz - count)" using le2 by (simp add: word_le_nat_alt)
  also have "unat (sz - count) = unat sz - unat count" using le by (rule unat_sub)
  finally have "unat count + unat cnt \<le> unat sz" using le by (simp add: word_le_nat_alt)
  then have k': "unat (count + cnt) = unat count + unat cnt" by (rule unat_add_small)
  have "tx_size s \<le> tx_count s + cnt" using zc ar(3) by (rule order_trans)
  then have "tx_sum cfg (base + unat cnt) s' d"
    using acct ar(1) c' by (simp add: res tx_acct_def tx_sum_def)
  then have "tx_acct cfg (base + unat cnt) s' d"
    using acct by (simp add: res tx_acct_def)
  moreover have "count \<le> count + cnt" using k' by (simp add: word_le_nat_alt)
  ultimately show ?thesis using k' ar(2) by (simp add: res)
qed

lemma write_loop_acct:
  "tx_acct cfg base s d \<Longrightarrow> count \<le> sz \<Longrightarrow>
   holds (write_loop cfg fuel buffer sz count (s, d))
     (\<lambda>(n, s', d'). n = sz \<and> tx_acct cfg (base + unat sz - unat count) s' d')"
proof (induction fuel arbitrary: base count s d)
  case 0
  show ?case by simp
next
  case (Suc fuel)
  show ?case
  proof (cases "count < sz")
    case False
    with Suc.prems have "count = sz" by simp
    with Suc.prems show ?thesis by simp
  next
    case True
    have "holds (case tx_make_room cfg fuel (s, d) of
           None \<Rightarrow> None
         | Some (Inl e) \<Rightarrow> Some (Inl e)
         | Some (Inr (s1, d1)) \<Rightarrow>
             (case tx_queue cfg buffer sz count s1 of
                Inl e \<Rightarrow> Some (Inl e)
              | Inr (count', s2) \<Rightarrow> write_loop cfg fuel buffer sz count' (s2, d1)))
          (\<lambda>(n, s', d'). n = sz \<and> tx_acct cfg (base + unat sz - unat count) s' d')"
    proof (rule holds_bind [OF tx_make_room_acct [OF Suc.prems(1)]], clarify)
      fix s1 d1
      assume a1: "tx_acct cfg base s1 d1"
      show "holds (case tx_queue cfg buffer sz count s1 of
                Inl e \<Rightarrow> Some (Inl e)
              | Inr (count', s2) \<Rightarrow> write_loop cfg fuel buffer sz count' (s2, d1))
             (\<lambda>(n, s', d'). n = sz \<and> tx_acct cfg (base + unat sz - unat count) s' d')"
      proof (rule holds_sum, clarify)
        fix count' s2
        assume "tx_queue cfg buffer sz count s1 = Inr (count', s2)"
        from tx_queue_acct [OF a1 Suc.prems(2) this]
        have a2: "tx_acct cfg (base + unat count' - unat count) s2 d1"
          and le: "count \<le> count'" "count' \<le> sz"
          by simp_all
        have "unat count \<le> unat count'" "unat count' \<le> unat sz"
          using le by (simp_all add: word_le_nat_alt)
        then have eq: "base + unat count' - unat count + unat sz - unat count'
            = base + unat sz - unat count"
          by simp
        from Suc.IH [OF a2 le(2)]
        show "holds (write_loop cfg fuel buffer sz count' (s2, d1))
               (\<lambda>(n, s', d'). n = sz \<and> tx_acct cfg (base + unat sz - unat count) s' d')"
          by (simp only: eq)
      qed
    qed
    with True show ?thesis by simp
  qed
qed

lemma write_bulk_acct:
  assumes acct: "tx_acct cfg base s d"
    and ready: "USBD_CDC_STATE_READY cfg \<le> state d" "lineState d AND 2 \<noteq> 0"
  shows "holds (write_bulk cfg fuel ipsr buffer sz (s, d))
     (\<lambda>(n, s', d'). tx_acct cfg (base + unat n) s' d' \<and> (ipsr = 0 \<longrightarrow> tx_kicked s' d') \<and>
        n = (if \<not> blocking s \<or> ipsr \<noteq> 0
             then (if sz > CDC_TX_BUFFER_SIZE cfg - tx_count s
                   then CDC_TX_BUFFER_SIZE cfg - tx_count s else sz)
             else sz))"
proof -
  define sz1 where "sz1 = (if \<not> blocking s \<or> ipsr \<noteq> 0
             then (if sz > CDC_TX_BUFFER_SIZE cfg - tx_count s
                   then CDC_TX_BUFFER_SIZE cfg - tx_count s else sz)
             else sz)"
  let ?s0 = "s\<lparr>tx_total := tx_total s + sz1\<rparr>"
  let ?Q = "\<lambda>(n, s', d'). tx_acct cfg (base + unat n) s' d' \<and> (ipsr = 0 \<longrightarrow> tx_kicked s' d') \<and> n = sz1"
  have a0: "tx_acct cfg base ?s0 d" using acct by (simp add: tx_acct_def tx_sum_def)
  have loop: "holds (write_loop cfg fuel buffer sz1 0 (?s0, d))
      (\<lambda>(n, s', d'). n = sz1 \<and> tx_acct cfg (base + unat sz1) s' d')"
    using write_loop_acct [OF a0, of 0 sz1 fuel buffer] by simp
  have "holds (case write_loop cfg fuel buffer sz1 0 (?s0, d) of
             None \<Rightarrow> None
           | Some (Inl e) \<Rightarrow> Some (Inl e)
           | Some (Inr (count, s1, d1)) \<Rightarrow>
               (if ipsr = 0 \<and> stm32l4_usbd_cdc_done d1 \<and> tx_count s1 \<noteq> 0
                then (case tx_start cfg (s1, d1) of
                        Inl e \<Rightarrow> Some (Inl e)
                      | Inr (s2, d2) \<Rightarrow> Some (Inr (count, s2, d2)))
                else Some (Inr (count, s1, d1)))) ?Q"
  proof (rule holds_bind [OF loop], clarify)
    fix s1 d1
    assume a1: "tx_acct cfg (base + unat sz1) s1 d1"
    show "holds (if ipsr = 0 \<and> stm32l4_usbd_cdc_done d1 \<and> tx_count s1 \<noteq> 0
                then (case tx_start cfg (s1, d1) of
                        Inl e \<Rightarrow> Some (Inl e)
                      | Inr (s2, d2) \<Rightarrow> Some (Inr (sz1, s2, d2)))
                else Some (Inr (sz1, s1, d1))) ?Q"
    proof (cases "ipsr = 0 \<and> stm32l4_usbd_cdc_done d1 \<and> tx_count s1 \<noteq> 0")
      case True
      then have sum: "tx_sum cfg (base + unat sz1) s1 d1" and z: "tx_size s1 = 0"
        using a1 by (simp_all add: tx_acct_def stm32l4_usbd_cdc_done_def)
      show ?thesis
      proof (cases "tx_start cfg (s1, d1)")
        case (Inl e)
        with True show ?thesis by simp
      next
        case (Inr r)
        obtain s2 d2 where r: "r = (s2, d2)" by (cases r)
        from tx_start_acct [OF sum z] Inr r
        have "tx_acct cfg (base + unat sz1) s2 d2 \<and> tx_busy d2" by simp
        with True Inr r show ?thesis by (simp add: tx_kicked_def)
      qed
    next
      case False
      then have "ipsr = 0 \<longrightarrow> tx_kicked s1 d1"
        by (auto simp: tx_kicked_def stm32l4_usbd_cdc_done_def)
      with False a1 show ?thesis by auto
    qed
  qed
  then show ?thesis
    using ready unfolding sz1_def
    by (simp add: write_bulk_def Let_def split del: if_split)
qed

lemma usbd_drain_acct:
  "tx_acct cfg base s d \<Longrightarrow> tx_kicked s d \<Longrightarrow>
   holds (usbd_drain cfg fuel (s, d))
     (\<lambda>(s', d'). tx_acct cfg base s' d' \<and> \<not> tx_busy d' \<and> tx_count s' = 0)"
proof (induction fuel arbitrary: s d)
  case 0
  show ?case by simp
next
  case (Suc fuel)
  show ?case
  proof (cases "tx_busy d")
    case False
    with Suc.prems show ?thesis by (simp add: tx_kicked_def)
  next
    case True
    have irq: "holds (usbd_irq cfg fuel (USBD_CDC_EVENT_TRANSMIT cfg) (s, d))
        (\<lambda>(s', d'). tx_acct cfg base s' d' \<and> tx_kicked s' d')"
      by (rule holds_mono [OF usbd_irq_acct [OF Suc.prems(1)]])
        (auto intro: tx_same_kicked [OF _ Suc.prems(2)] split: if_splits)
    have "holds (case usbd_irq cfg fuel (USBD_CDC_EVENT_TRANSMIT cfg) (s, d) of
           None \<Rightarrow> None
         | Some (Inl e) \<Rightarrow> Some (Inl e)
         | Some (Inr sd') \<Rightarrow> usbd_drain cfg fuel sd')
        (\<lambda>(s', d'). tx_acct cfg base s' d' \<and> \<not> tx_busy d' \<and> tx_count s' = 0)"
      by (rule holds_bind [OF irq]) (auto intro: Suc.IH)
    with True show ?thesis by simp
  qed
qed

text \<open>
  C5, as stated: the chunk lengths of every write larger than the ceiling add up to the
  original size. This fails when the write is cut short: with blocking disabled, a write
  of 100 bytes into the empty 64-byte buffer is clamped to 64 bytes, and the packets
  transmitted (63 and 1 bytes) add up to 64.
\<close>

theorem packet_sum_truncated_counterexample:
  "case write_bulk cfg64 3 0 (replicate 100 5) 100
          (blockOnOverrun False (CDC_init cfg64), dev_ready) of
     Some (Inr (n, s1, d1)) \<Rightarrow>
       (case usbd_drain cfg64 3 (s1, d1) of
          Some (Inr (s2, d2)) \<Rightarrow>
            n = 64 \<and> map length (tx_log d2) = [63, 1] \<and>
            sum_list (map length (tx_log d2)) \<noteq> unat (100 :: u32)
        | _ \<Rightarrow> False)
   | _ \<Rightarrow> False"
  by code_simp

text \<open>
  C5, amended: a \<open>write\<close> from thread mode on a ready device whose transmitter is idle,
  followed by the device completing every packet. Every length handed to
  \<open>stm32l4_usbd_cdc_transmit\<close>, by \<open>write\<close> or by the event callback, is at most
  \<open>CDC_TX_PACKET_SIZE\<close>; the lengths add up to the number of bytes \<open>write\<close> returned,
  which is \<open>size\<close> when blocking is enabled and \<open>size\<close> cut at the capacity when it is
  disabled; and \<open>CDC_TX_PACKET_SIZE\<close> is one less than a multiple of 64, hence below the
  next multiple of the 64-byte packet size.
\<close>

theorem packet_ceiling:
  assumes idle: "tx_log d = []" "tx_count s = 0" "tx_size s = 0"
    and ready: "USBD_CDC_STATE_READY cfg \<le> state d" "lineState d AND 2 \<noteq> 0"
    and w: "write_bulk cfg fuel 0 buffer sz (s, d) = Some (Inr (n, s1, d1))"
    and dr: "usbd_drain cfg fuel' (s1, d1) = Some (Inr (s2, d2))"
  shows "(\<forall>p \<in> set (tx_log d2). length p \<le> unat (CDC_TX_PACKET_SIZE cfg)) \<and>
         sum_list (map length (tx_log d2)) = unat n \<and>
         n = (if blocking s then sz else min sz (CDC_TX_BUFFER_SIZE cfg)) \<and>
         unat (CDC_TX_PACKET_SIZE cfg) mod 64 = 63"
proof -
  have a: "tx_acct cfg 0 s d" using idle by (simp add: tx_acct_def tx_sum_def)
  note post = holdsD [OF write_bulk_acct [OF a ready] w, unfolded prod.case]
  from post have "tx_acct cfg (0 + unat n) s1 d1" by (rule conjunct1)
  then have a1: "tx_acct cfg (unat n) s1 d1" by simp
  from post have k1: "tx_kicked s1 d1" by blast
  from post have n: "n = (if \<not> blocking s \<or> (0 :: u32) \<noteq> 0
             then (if sz > CDC_TX_BUFFER_SIZE cfg - tx_count s
                   then CDC_TX_BUFFER_SIZE cfg - tx_count s else sz)
             else sz)"
    by (rule conjunct2 [THEN conjunct2])
  note post2 = holdsD [OF usbd_drain_acct [OF a1 k1] dr, unfolded prod.case]
  from post2 have a2: "tx_acct cfg (unat n) s2 d2" and fin: "\<not> tx_busy d2" "tx_count s2 = 0"
    by blast+
  from a2 fin have "tx_size s2 = 0" by (simp add: tx_acct_def)
  with a2 fin have "sum_list (map length (tx_log d2)) = unat n"
    and "list_all (\<lambda>p. length p \<le> unat (CDC_TX_PACKET_SIZE cfg)) (tx_log d2)"
    by (simp_all add: tx_acct_def tx_sum_def)
  moreover have "n = (if blocking s then sz else min sz (CDC_TX_BUFFER_SIZE cfg))"
    using n idle(2) by (auto simp: min_def)
  ultimately show ?thesis by (simp add: list_all_iff packet_size_mod)
qed

lemma packet_example_eval:
  "case write_bulk cfg64 10 0 (replicate 100 5) 100
          (CDC_init cfg64, dev_ready\<lparr>irq_queue := [2, 2]\<rparr>) of
     Some (Inr (n, s1, d1)) \<Rightarrow>
       (case usbd_drain cfg64 10 (s1, d1) of
          Some (Inr (s2, d2)) \<Rightarrow> map length (tx_log d2) = [63, 1, 36]
        | _ \<Rightarrow> False)
   | _ \<Rightarrow> False"
  by code_simp

theorem packet_ceiling_witness:
  "tx_log (dev_ready\<lparr>irq_queue := [2, 2]\<rparr>) = [] \<and>
   tx_count (CDC_init cfg64) = 0 \<and> tx_size (CDC_init cfg64) = 0 \<and>
   USBD_CDC_STATE_READY cfg64 \<le> state (dev_ready\<lparr>irq_queue := [2, 2]\<rparr>) \<and>
   lineState (dev_ready\<lparr>irq_queue := [2, 2]\<rparr>) AND 2 \<noteq> 0 \<and>
   unat (CDC_TX_PACKET_SIZE cfg64) = 63 \<and>
   (\<exists>n s1 d1 s2 d2.
      write_bulk cfg64 10 0 (replicate 100 5) 100
          (CDC_init cfg64, dev_ready\<lparr>irq_queue := [2, 2]\<rparr>) = Some (Inr (n, s1, d1)) \<and>
      usbd_drain cfg64 10 (s1, d1) = Some (Inr (s2, d2)) \<and>
      map length (tx_log d2) = [63, 1, 36] \<and>
      sum_list (map length (tx_log d2)) = unat n \<and> n = 100)"
proof -
  let ?d = "dev_ready\<lparr>irq_queue := [2, 2]\<rparr>"
  have h1: "tx_log ?d = []" "tx_count (CDC_init cfg64) = 0" "tx_size (CDC_init cfg64) = 0"
    by (simp_all add: dev_ready_def CDC_init_def)
  have h2: "USBD_CDC_STATE_READY cfg64 \<le> state ?d" "lineState ?d AND 2 \<noteq> 0"
    by (simp_all add: dev_ready_def cfg64_def)
  have pk: "unat (CDC_TX_PACKET_SIZE cfg64) = 63"
    by (simp add: CDC_TX_PACKET_SIZE_def cfg64_def)
  from packet_example_eval obtain n s1 d1 where
    w: "write_bulk cfg64 10 0 (replicate 100 5) 100 (CDC_init cfg64, ?d) = Some (Inr (n, s1, d1))"
    and rest: "case usbd_drain cfg64 10 (s1, d1) of
          None \<Rightarrow> False | Some (Inl e) \<Rightarrow> False
        | Some (Inr (s2, d2)) \<Rightarrow> map length (tx_log d2) = [63, 1, 36]"
    by (rule res_tripleE)
  from rest obtain s2 d2 where
    dr: "usbd_drain cfg64 10 (s1, d1) = Some (Inr (s2, d2))"
    and lens: "map length (tx_log d2) = [63, 1, 36]"
    by (rule res_pairE)
  have "blocking (CDC_init cfg64)" by (simp add: CDC_init_def)
  with packet_ceiling [OF h1 h2 w dr]
  have "sum_list (map length (tx_log d2)) = unat n" "n = 100" by simp_all
  with w dr lens have "\<exists>n s1 d1 s2 d2.
      write_bulk cfg64 10 0 (replicate 100 5) 100
          (CDC_init cfg64, dev_ready\<lparr>irq_queue := [2, 2]\<rparr>) = Some (Inr (n, s1, d1)) \<and>
      usbd_drain cfg64 10 (s1, d1) = Some (Inr (s2, d2)) \<and>
      map length (tx_log d2) = [63, 1, 36] \<and>
      sum_list (map length (tx_log d2)) = unat n \<and> n = 100"
    by (intro exI [of _ n] exI [of _ s1] exI [of _ d1] exI [of _ s2] exI [of _ d2] conjI)
  with h1 h2 pk show ?thesis by (intro conjI)
qed

section \<open>Queries\<close>

text \<open>
  C9, as stated: \<open>availableForWrite()\<close> is the capacity minus the transmit occupancy
  regardless of the device state. This fails: below the ready state the function returns
  0 whatever the occupancy is.
\<close>

theorem availableForWrite_not_ready_counterexample:
  "availableForWrite cfg64 (CDC_init cfg64) dev_not_ready
   \<noteq> sint (CDC_TX_BUFFER_SIZE cfg64 - tx_count (CDC_init cfg64))"
  by (simp add: availableForWrite_def cfg64_def dev_not_ready_def dev_ready_def CDC_init_def)

text \<open>
  C9, amended: \<open>available()\<close> is the receive occupancy whatever the device state is;
  \<open>availableForWrite()\<close> is the capacity minus the transmit occupancy when the device
  state is at least ready, and 0 below it.
\<close>

theorem available_queries:
  "available s = sint (rx_count s) \<and>
   availableForWrite cfg s d =
     (if USBD_CDC_STATE_READY cfg \<le> state d
      then sint (CDC_TX_BUFFER_SIZE cfg - tx_count s) else 0)"
  by (simp add: available_def availableForWrite_def)


end
